theory Spec2Isabelle
  imports Complex_Main
begin

section \<open>Board cells, errors and array indexing\<close>

text \<open>
  The board of \<^verbatim>\<open>simple_board.py\<close> is a one-dimensional numpy array of the four
  cell codes imported from \<^verbatim>\<open>board_util\<close> (EMPTY = 0, BLACK = 1, WHITE = 2,
  BORDER = 3; the source writes \<^verbatim>\<open>self.board[point] = 0\<close> for EMPTY and tests
  \<^verbatim>\<open>color == 2\<close> for WHITE).
\<close>

datatype cell = EMPTY | BLACK | WHITE | BORDER

text \<open>The exceptions a call can end with.\<close>

datatype error = AssertionError | IndexError | TypeError | KeyError | AttributeError
  | RecursionError | Diverges

text \<open>
  Modelled from the spec: \<^verbatim>\<open>board_util.is_black_white\<close> and
  \<^verbatim>\<open>GoBoardUtil.opponent\<close> are not part of the sources at hand; a colour is
  BLACK or WHITE and the opponent of one is the other (\<^verbatim>\<open>WHITE + BLACK - color\<close>
  on the integer codes, which also swaps EMPTY and BORDER).
\<close>

fun is_black_white :: "cell \<Rightarrow> bool" where
  "is_black_white BLACK = True"
| "is_black_white WHITE = True"
| "is_black_white _ = False"

fun opponent :: "cell \<Rightarrow> cell" where
  "opponent BLACK = WHITE"
| "opponent WHITE = BLACK"
| "opponent EMPTY = BORDER"
| "opponent BORDER = EMPTY"

text \<open>
  Indexing as numpy and Python lists do it: an index from \<open>-n\<close> to \<open>-1\<close> counts from
  the end, anything outside \<open>-n .. n-1\<close> raises IndexError.
\<close>

definition norm_idx :: "nat \<Rightarrow> int \<Rightarrow> nat option" where
  "norm_idx n p =
     (if 0 \<le> p \<and> p < int n then Some (nat p)
      else if - int n \<le> p \<and> p < 0 then Some (nat (p + int n))
      else None)"

definition get :: "'a list \<Rightarrow> int \<Rightarrow> 'a option" where
  "get xs p = (case norm_idx (length xs) p of None \<Rightarrow> None | Some i \<Rightarrow> Some (xs ! i))"

definition put :: "'a list \<Rightarrow> int \<Rightarrow> 'a \<Rightarrow> 'a list option" where
  "put xs p v = (case norm_idx (length xs) p of None \<Rightarrow> None | Some i \<Rightarrow> Some (xs[i := v]))"

section \<open>The board object\<close>

record go_board =
  size :: int
  NS :: int
  maxpoint :: int
  board :: "cell list"
  current_player :: cell
  ko_recapture :: "int option"
  liberty_of :: "int option list"
  neighbors :: "int list list"

text \<open>
  \<^verbatim>\<open>play_move_gomoku\<close>: two assertions, the occupied test, then the two writes.
  PASS is Python's \<^verbatim>\<open>None\<close>, so a point argument is an \<open>int option\<close>.
\<close>

definition play_move_gomoku :: "go_board \<Rightarrow> int option \<Rightarrow> cell \<Rightarrow> error + (bool \<times> go_board)" where
  "play_move_gomoku b point color =
     (if \<not> is_black_white color then Inl AssertionError
      else case point of
        None \<Rightarrow> Inl AssertionError
      | Some p \<Rightarrow>
         (case get (board b) p of
            None \<Rightarrow> Inl IndexError
          | Some v \<Rightarrow>
             if v \<noteq> EMPTY then Inr (False, b)
             else (case put (board b) p color of
                     None \<Rightarrow> Inl IndexError
                   | Some xs \<Rightarrow> Inr (True, b\<lparr>board := xs, current_player := opponent color\<rparr>))))"

text \<open>\<^verbatim>\<open>undo\<close>: one unconditional write of EMPTY.\<close>

definition undo :: "go_board \<Rightarrow> int \<Rightarrow> error + go_board" where
  "undo b p = (case put (board b) p EMPTY of
                 None \<Rightarrow> Inl IndexError
               | Some xs \<Rightarrow> Inr (b\<lparr>board := xs\<rparr>))"

text \<open>
  \<^verbatim>\<open>reset\<close> (called by the constructor, which asserts \<open>2 \<le> size \<le> MAXSIZE\<close>):
  an array of BORDER in which the cells \<open>row * NS + 1 .. row * NS + size\<close> of every
  row \<open>1 .. size\<close> are then set to EMPTY, and the table of on-board neighbours.
\<close>

definition row_start :: "int \<Rightarrow> int \<Rightarrow> int" where
  "row_start ns row = row * ns + 1"

definition fill_empty :: "cell list \<Rightarrow> nat \<Rightarrow> nat \<Rightarrow> cell list" where
  "fill_empty xs start n = take start xs @ replicate (min n (length xs - start)) EMPTY @ drop (start + n) xs"

definition initialize_empty_points :: "int \<Rightarrow> cell list \<Rightarrow> cell list" where
  "initialize_empty_points sz xs =
     foldl (\<lambda>acc row. fill_empty acc (nat (row_start (sz + 1) row)) (nat sz)) xs [1 ..sz]"

definition neighbors4 :: "int \<Rightarrow> int \<Rightarrow> int list" where
  "neighbors4 ns point = [point - 1, point + 1, point - ns, point + ns]"

definition on_board_neighbors :: "int \<Rightarrow> cell list \<Rightarrow> int \<Rightarrow> int list" where
  "on_board_neighbors ns xs point = filter (\<lambda>nb. get xs nb \<noteq> Some BORDER) (neighbors4 ns point)"

definition initialize_neighbors :: "int \<Rightarrow> cell list \<Rightarrow> int list list" where
  "initialize_neighbors ns xs =
     map (\<lambda>i. if xs ! i = BORDER then [] else on_board_neighbors ns xs (int i)) [0 ..< length xs]"

definition reset :: "int \<Rightarrow> go_board" where
  "reset sz =
     (let mp = sz * sz + 3 * (sz + 1);
          xs = initialize_empty_points sz (replicate (nat mp) BORDER)
      in \<lparr> size = sz, NS = sz + 1, maxpoint = mp, board = xs, current_player = BLACK,
           ko_recapture = None, liberty_of = replicate (nat mp) None,
           neighbors = initialize_neighbors (sz + 1) xs \<rparr>)"

section \<open>The terminal check\<close>

text \<open>
  \<^verbatim>\<open>where1d(self.board == v)\<close>: the indices of the cells equal to \<open>v\<close>, in ascending
  order (\<^verbatim>\<open>board_util.where1d\<close> is numpy's \<^verbatim>\<open>where\<close> on a one-dimensional mask).
\<close>

definition where1d_eq :: "cell list \<Rightarrow> cell \<Rightarrow> int list" where
  "where1d_eq xs v = map int (filter (\<lambda>i. xs ! i = v) [0 ..< length xs])"

text \<open>
  One \<^verbatim>\<open>while True\<close> loop of \<^verbatim>\<open>_point_direction_check_connect_gomoko\<close>: step, compare
  the cell with the colour, count, stop when the count is exactly 5 or the cell differs.
  A read outside the array raises IndexError. With step 0 and a count already beyond 5
  the loop reads the same matching cell forever.
\<close>

function connect_loop :: "cell list \<Rightarrow> cell \<Rightarrow> int \<Rightarrow> int \<Rightarrow> nat \<Rightarrow> error + nat" where
  "connect_loop xs color p d count =
     (case get xs (p + d) of
        None \<Rightarrow> Inl IndexError
      | Some v \<Rightarrow>
          if v = color then
            (if count + 1 = 5 then Inr (count + 1)
             else if d = 0 \<and> 5 < count + 1 then Inl Diverges
             else connect_loop xs color (p + d) d (count + 1))
          else Inr count)"
  by pat_completeness auto
termination
proof (relation "measure (\<lambda>(xs, color, p, d, count).
          if d = 0 then 5 - count
          else if 0 < d then nat (int (length xs) - p)
          else nat (p + int (length xs) + 1))", goal_cases)
  case 1
  show ?case by simp
next
  case (2 xs color p d count v)
  then show ?case
    by (auto simp: get_def norm_idx_def split: option.splits if_splits)
qed

declare connect_loop.simps [simp del]

definition point_direction_check_connect_gomoko :: "go_board \<Rightarrow> int \<Rightarrow> int \<Rightarrow> error + bool" where
  "point_direction_check_connect_gomoko b point shift =
     (case get (board b) point of
        None \<Rightarrow> Inl IndexError
      | Some color \<Rightarrow>
         (case connect_loop (board b) color point shift 1 of
            Inl e \<Rightarrow> Inl e
          | Inr c1 \<Rightarrow>
             (case connect_loop (board b) color point (- shift) c1 of
                Inl e \<Rightarrow> Inl e
              | Inr c2 \<Rightarrow> if c2 \<le> 5 then Inr (c2 = 5) else Inl AssertionError)))"

text \<open>The four axis tests of \<^verbatim>\<open>point_check_game_end_gomoku\<close>, in the source's order.\<close>

fun first_true :: "('a \<Rightarrow> error + bool) \<Rightarrow> 'a list \<Rightarrow> error + bool" where
  "first_true f [] = Inr False"
| "first_true f (x # xs) =
     (case f x of Inl e \<Rightarrow> Inl e | Inr True \<Rightarrow> Inr True | Inr False \<Rightarrow> first_true f xs)"

definition axes :: "go_board \<Rightarrow> int list" where
  "axes b = [1, NS b, NS b + 1, NS b - 1]"

definition point_check_game_end_gomoku :: "go_board \<Rightarrow> int \<Rightarrow> error + bool" where
  "point_check_game_end_gomoku b point =
     first_true (point_direction_check_connect_gomoko b point) (axes b)"

definition check_game_end_gomoku :: "go_board \<Rightarrow> error + (bool \<times> cell option)" where
  "check_game_end_gomoku b =
     (case first_true (point_check_game_end_gomoku b) (where1d_eq (board b) WHITE) of
        Inl e \<Rightarrow> Inl e
      | Inr True \<Rightarrow> Inr (True, Some WHITE)
      | Inr False \<Rightarrow>
         (case first_true (point_check_game_end_gomoku b) (where1d_eq (board b) BLACK) of
            Inl e \<Rightarrow> Inl e
          | Inr True \<Rightarrow> Inr (True, Some BLACK)
          | Inr False \<Rightarrow> Inr (False, None)))"

text \<open>
  A board as \<^verbatim>\<open>reset\<close> lays it out and the moves keep it: the derived fields agree
  with the size, and a cell is BORDER exactly when its index is not the index of a
  row 1..size and a column 1..size.
\<close>

definition on_board :: "int \<Rightarrow> int \<Rightarrow> bool" where
  "on_board sz p = (1 \<le> p div (sz + 1) \<and> p div (sz + 1) \<le> sz \<and> 1 \<le> p mod (sz + 1))"

definition wf_board :: "go_board \<Rightarrow> bool" where
  "wf_board b =
     (2 \<le> size b \<and> NS b = size b + 1 \<and> maxpoint b = size b * size b + 3 * (size b + 1) \<and>
      int (length (board b)) = maxpoint b \<and>
      list_all (\<lambda>i. (board b ! i = BORDER) = (\<not> on_board (size b) (int i))) [0 ..< length (board b)])"

text \<open>
  The property the terminal check is compared with, in the words of the claim: five
  cells in a line of step \<open>d\<close> starting at \<open>s\<close> all hold colour \<open>c\<close>; a stone lies on such
  a line along one of the four axes; some stone of the board does.
\<close>

definition five_in_line :: "cell list \<Rightarrow> cell \<Rightarrow> int \<Rightarrow> int \<Rightarrow> bool" where
  "five_in_line xs c s d = list_all (\<lambda>k. get xs (s + k * d) = Some c) [0, 1, 2, 3, 4]"

definition stone_on_five :: "go_board \<Rightarrow> cell \<Rightarrow> int \<Rightarrow> bool" where
  "stone_on_five b c p =
     (is_black_white c \<and> get (board b) p = Some c \<and>
      list_ex (\<lambda>d. list_ex (\<lambda>j. five_in_line (board b) c (p - j * d) d) [0, 1, 2, 3, 4]) (axes b))"

definition five_of :: "go_board \<Rightarrow> cell \<Rightarrow> bool" where
  "five_of b c = list_ex (\<lambda>i. stone_on_five b c (int i)) [0 ..< length (board b)]"

text \<open>\<open>m\<close> cells of colour \<open>c\<close> follow \<open>p\<close> in steps of \<open>d\<close>.\<close>

definition run :: "cell list \<Rightarrow> cell \<Rightarrow> int \<Rightarrow> int \<Rightarrow> nat \<Rightarrow> bool" where
  "run xs c p d m = (\<forall>k. 1 \<le> k \<and> k \<le> m \<longrightarrow> get xs (p + int k * d) = Some c)"

text \<open>A five of colour \<open>c\<close> starts at the index \<open>s\<close> of the array.\<close>

definition five_start :: "go_board \<Rightarrow> cell \<Rightarrow> nat \<Rightarrow> bool" where
  "five_start b c s = (s < length (board b) \<and> (\<exists>d\<in>set (axes b). five_in_line (board b) c (int s) d))"

section \<open>Pattern scans: open four and its block\<close>

text \<open>Sequencing of calls that may raise: the first exception ends the computation.\<close>

definition bind_err :: "error + 'a \<Rightarrow> ('a \<Rightarrow> error + 'b) \<Rightarrow> error + 'b" where
  "bind_err m f = (case m of Inl e \<Rightarrow> Inl e | Inr x \<Rightarrow> f x)"

text \<open>
  \<^verbatim>\<open>final_check\<close> returns True, False or, where a branch falls through, Python's
  \<^verbatim>\<open>None\<close>; its callers only test the result for truth.
\<close>

definition final_check :: "bool \<Rightarrow> bool \<Rightarrow> nat \<Rightarrow> nat \<Rightarrow> nat \<Rightarrow> bool option" where
  "final_check first second points emp count =
     (if first then (if count \<ge> points \<and> emp = 1 then Some True else None)
      else if second then (if count \<ge> points \<and> emp = 2 then Some True else None)
      else if count \<ge> points then Some True
      else Some False)"

definition truthy :: "bool option \<Rightarrow> bool" where
  "truthy r = (r = Some True)"

text \<open>
  One \<^verbatim>\<open>while True\<close> loop of \<^verbatim>\<open>straight_check\<close>: step, count the cells of the colour,
  and at the first other cell add one to \<^verbatim>\<open>emp_cell\<close> if it is EMPTY. With step 0 on a
  cell of the colour the loop never leaves it.
\<close>

function straight_loop :: "cell list \<Rightarrow> cell \<Rightarrow> int \<Rightarrow> int \<Rightarrow> nat \<Rightarrow> nat \<Rightarrow> error + (nat \<times> nat)" where
  "straight_loop xs color p d count emp_cell =
     (case get xs (p + d) of
        None \<Rightarrow> Inl IndexError
      | Some v \<Rightarrow>
          if v = color then
            (if d = 0 then Inl Diverges
             else straight_loop xs color (p + d) d (count + 1) emp_cell)
          else Inr (count, if v = EMPTY then emp_cell + 1 else emp_cell))"
  by pat_completeness auto
termination
proof (relation "measure (\<lambda>(xs, color, p, d, count, emp_cell).
          if 0 < d then nat (int (length xs) - p) else nat (p + int (length xs) + 1))", goal_cases)
  case 1
  show ?case by simp
next
  case (2 xs color p d count emp_cell v)
  then show ?case
    by (auto simp: get_def norm_idx_def split: option.splits if_splits)
qed

declare straight_loop.simps [simp del]

definition straight_check ::
  "go_board \<Rightarrow> int \<Rightarrow> int \<Rightarrow> cell \<Rightarrow> nat \<Rightarrow> bool \<Rightarrow> bool \<Rightarrow> error + bool option" where
  "straight_check b point shift color points empty1 empty2 =
     bind_err (straight_loop (board b) color point shift 1 0) (\<lambda>(count, emp_cell).
     bind_err (straight_loop (board b) color point (- shift) count emp_cell) (\<lambda>(count, emp_cell).
     Inr (final_check empty1 empty2 points emp_cell count)))"

text \<open>
  An \<^verbatim>\<open>if / elif\<close> chain over the four axes: the first axis whose check is true
  decides, the later ones are not evaluated.
\<close>

definition any_axis ::
  "go_board \<Rightarrow> int \<Rightarrow> cell \<Rightarrow> nat \<Rightarrow> bool \<Rightarrow> bool \<Rightarrow> error + bool" where
  "any_axis b point color points empty1 empty2 =
     first_true (\<lambda>d. bind_err (straight_check b point d color points empty1 empty2)
                               (\<lambda>r. Inr (truthy r))) (axes b)"

fun filter_err :: "('a \<Rightarrow> error + bool) \<Rightarrow> 'a list \<Rightarrow> error + 'a list" where
  "filter_err f [] = Inr []"
| "filter_err f (x # xs) =
     bind_err (f x) (\<lambda>keep. bind_err (filter_err f xs) (\<lambda>rest.
       Inr (if keep then x # rest else rest)))"

definition open_four :: "go_board \<Rightarrow> cell \<Rightarrow> error + int list" where
  "open_four b color =
     filter_err (\<lambda>point. any_axis b point color 4 False True) (where1d_eq (board b) EMPTY)"

text \<open>
  \<^verbatim>\<open>block_open_four\<close>: for every empty point three chains in turn, each appending the
  point unless it is in the list already.
\<close>

definition append_new :: "int list \<Rightarrow> int \<Rightarrow> int list" where
  "append_new found point = (if point \<in> set found then found else found @ [point])"

fun block_loop :: "go_board \<Rightarrow> cell \<Rightarrow> int list \<Rightarrow> int list \<Rightarrow> error + int list" where
  "block_loop b versus_color [] found = Inr found"
| "block_loop b versus_color (point # pts) found =
     bind_err (any_axis b point versus_color 4 True False) (\<lambda>r1.
     let found1 = (if r1 then append_new found point else found) in
     bind_err (any_axis b point versus_color 3 True False) (\<lambda>r2.
     let found2 = (if r2 then append_new found1 point else found1) in
     bind_err (any_axis b point versus_color 4 False True) (\<lambda>r3.
     let found3 = (if r3 then append_new found2 point else found2) in
     block_loop b versus_color pts found3)))"

definition block_open_four :: "go_board \<Rightarrow> cell \<Rightarrow> error + int list" where
  "block_open_four b color =
     block_loop b (opponent color) (where1d_eq (board b) EMPTY) []"

text \<open>
  The property \<^verbatim>\<open>open_four\<close> is compared with: from \<open>p\<close>, \<open>i\<close> cells of colour \<open>c\<close>
  follow in steps of \<open>d\<close> and the cell after them is EMPTY; the point \<open>p\<close>, once
  filled, lies in a line of at least four stones along \<open>d\<close> whose two ends are both
  followed by an EMPTY cell.
\<close>

definition run_to_empty :: "cell list \<Rightarrow> cell \<Rightarrow> int \<Rightarrow> int \<Rightarrow> nat \<Rightarrow> bool" where
  "run_to_empty xs c p d i =
     (list_all (\<lambda>k. get xs (p + int k * d) = Some c) [1 ..< Suc i] \<and>
      get xs (p + int (Suc i) * d) = Some EMPTY)"

definition open_line :: "go_board \<Rightarrow> cell \<Rightarrow> int \<Rightarrow> int \<Rightarrow> bool" where
  "open_line b c p d =
     list_ex (\<lambda>i. list_ex (\<lambda>j. 4 \<le> i + j + 1 \<and> run_to_empty (board b) c p d i \<and>
                                run_to_empty (board b) c p (- d) j)
                          [0 ..< length (board b)])
             [0 ..< length (board b)]"

definition open_four_point :: "go_board \<Rightarrow> cell \<Rightarrow> int \<Rightarrow> bool" where
  "open_four_point b c p = list_ex (open_line b c p) (axes b)"

section \<open>The legality test inherited from Go\<close>

text \<open>
  \<^verbatim>\<open>is_legal\<close> is the Go test: it puts the stone on the board, looks for captures and
  for a liberty of the new block, and takes the stone off again. The helpers below read
  the grid and the neighbour table; \<^verbatim>\<open>_has_liberty\<close> also writes the cache
  \<^verbatim>\<open>liberty_of\<close>, so the board object is passed through them. In \<^verbatim>\<open>liberty_of\<close> the
  sentinel \<^verbatim>\<open>NULLPOINT\<close> is \<open>None\<close>.
\<close>

definition color_is :: "go_board \<Rightarrow> cell \<Rightarrow> int \<Rightarrow> error + bool" where
  "color_is b color nb = (case get (board b) nb of None \<Rightarrow> Inl IndexError | Some v \<Rightarrow> Inr (v = color))"

definition neighbors_of_color :: "go_board \<Rightarrow> int \<Rightarrow> cell \<Rightarrow> error + int list" where
  "neighbors_of_color b point color =
     (case get (neighbors b) point of
        None \<Rightarrow> Inl IndexError
      | Some nbs \<Rightarrow> filter_err (color_is b color) nbs)"

fun find_first :: "('a \<Rightarrow> error + bool) \<Rightarrow> 'a list \<Rightarrow> error + 'a option" where
  "find_first f [] = Inr None"
| "find_first f (x # xs) =
     bind_err (f x) (\<lambda>hit. if hit then Inr (Some x) else find_first f xs)"

definition find_neighbor_of_color :: "go_board \<Rightarrow> int \<Rightarrow> cell \<Rightarrow> error + int option" where
  "find_neighbor_of_color b point color =
     (case get (neighbors b) point of
        None \<Rightarrow> Inl IndexError
      | Some nbs \<Rightarrow> find_first (color_is b color) nbs)"

definition stone_has_liberty :: "go_board \<Rightarrow> int \<Rightarrow> error + bool" where
  "stone_has_liberty b stone =
     bind_err (find_neighbor_of_color b stone EMPTY) (\<lambda>lib. Inr (lib \<noteq> None))"

text \<open>\<^verbatim>\<open>where1d(block)\<close> for a boolean marker array.\<close>

definition where1d :: "bool list \<Rightarrow> int list" where
  "where1d marker = map int (filter (\<lambda>i. marker ! i) [0 ..< length marker])"

fun first_liberty :: "go_board \<Rightarrow> int list \<Rightarrow> error + int option" where
  "first_liberty b [] = Inr None"
| "first_liberty b (stone # stones) =
     bind_err (find_neighbor_of_color b stone EMPTY) (\<lambda>lib.
       if lib \<noteq> None then Inr lib else first_liberty b stones)"

definition get_liberty :: "go_board \<Rightarrow> bool list \<Rightarrow> error + int option" where
  "get_liberty b block = first_liberty b (where1d block)"

fun store_liberty :: "int option list \<Rightarrow> int list \<Rightarrow> int \<Rightarrow> error + int option list" where
  "store_liberty lo [] lib = Inr lo"
| "store_liberty lo (stone # stones) lib =
     (case put lo stone (Some lib) of
        None \<Rightarrow> Inl IndexError
      | Some lo' \<Rightarrow> store_liberty lo' stones lib)"

definition has_liberty :: "go_board \<Rightarrow> bool list \<Rightarrow> error + (bool \<times> go_board)" where
  "has_liberty b block =
     bind_err (get_liberty b block) (\<lambda>r.
       case r of
         None \<Rightarrow> Inr (False, b)
       | Some lib \<Rightarrow>
          (case get (board b) lib of
             None \<Rightarrow> Inl IndexError
           | Some v \<Rightarrow>
              if v \<noteq> EMPTY then Inl AssertionError
              else bind_err (store_liberty (liberty_of b) (where1d block) lib) (\<lambda>lo.
                     Inr (True, b\<lparr>liberty_of := lo\<rparr>))))"

text \<open>
  \<^verbatim>\<open>_block_of\<close>: the flood fill. The stack is kept with its top first (\<^verbatim>\<open>pop()\<close> takes
  the head, \<^verbatim>\<open>append\<close> conses); \<open>mark_new\<close> is the inner \<^verbatim>\<open>for nb in neighbors\<close> loop.
\<close>

fun mark_new :: "bool list \<Rightarrow> int list \<Rightarrow> int list \<Rightarrow> error + (bool list \<times> int list)" where
  "mark_new marker stack [] = Inr (marker, stack)"
| "mark_new marker stack (nb # nbs) =
     (case get marker nb of
        None \<Rightarrow> Inl IndexError
      | Some True \<Rightarrow> mark_new marker stack nbs
      | Some False \<Rightarrow>
         (case put marker nb True of
            None \<Rightarrow> Inl IndexError
          | Some marker' \<Rightarrow> mark_new marker' (nb # stack) nbs))"

definition unmarked :: "bool list \<Rightarrow> nat" where
  "unmarked marker = length (filter (\<lambda>m. \<not> m) marker)"

lemma unmarked_update:
  "i < length marker \<Longrightarrow> \<not> marker ! i \<Longrightarrow> Suc (unmarked (marker[i := True])) = unmarked marker"
  unfolding unmarked_def
proof (induction marker arbitrary: i)
  case Nil
  then show ?case by simp
next
  case (Cons m marker)
  then show ?case by (cases i) auto
qed

lemma mark_new_measure:
  "mark_new marker stack nbs = Inr (marker', stack') \<Longrightarrow>
     2 * unmarked marker' + length stack' \<le> 2 * unmarked marker + length stack"
proof (induction nbs arbitrary: marker stack)
  case Nil
  then show ?case by simp
next
  case (Cons nb nbs)
  show ?case
  proof (cases "get marker nb")
    case None
    then show ?thesis using Cons.prems by simp
  next
    case (Some m)
    show ?thesis
    proof (cases m)
      case True
      then show ?thesis using Cons Some by simp
    next
      case False
      obtain i where i: "norm_idx (length marker) nb = Some i"
        using Some by (auto simp: get_def split: option.splits)
      then have il: "i < length marker"
        by (auto simp: norm_idx_def split: if_splits)
      have mi: "\<not> marker ! i" using Some False i by (simp add: get_def)
      have rec: "mark_new (marker[i := True]) (nb # stack) nbs = Inr (marker', stack')"
        using Cons.prems Some False i by (simp add: put_def)
      have "2 * unmarked marker' + length stack'
              \<le> 2 * unmarked (marker[i := True]) + length (nb # stack)"
        using Cons.IH [OF rec] .
      then show ?thesis using unmarked_update [OF il mi] by simp
    qed
  qed
qed

function fill_block :: "go_board \<Rightarrow> cell \<Rightarrow> bool list \<Rightarrow> int list \<Rightarrow> error + bool list" where
  "fill_block b color marker stack =
     (case stack of
        [] \<Rightarrow> Inr marker
      | p # rest \<Rightarrow>
         (case neighbors_of_color b p color of
            Inl e \<Rightarrow> Inl e
          | Inr nbs \<Rightarrow>
             (case mark_new marker rest nbs of
                Inl e \<Rightarrow> Inl e
              | Inr (marker', stack') \<Rightarrow> fill_block b color marker' stack')))"
  by pat_completeness auto
termination
proof (relation "measure (\<lambda>(b, color, marker, stack). 2 * unmarked marker + length stack)", goal_cases)
  case 1
  show ?case by simp
next
  case (2 b color marker stack p rest nbs x marker' stack')
  then have "mark_new marker rest nbs = Inr (marker', stack')" by simp
  then show ?case using mark_new_measure [of marker rest nbs marker' stack'] 2 by auto
qed

declare fill_block.simps [simp del]

definition block_of :: "go_board \<Rightarrow> int \<Rightarrow> error + bool list" where
  "block_of b stone =
     (case get (board b) stone of
        None \<Rightarrow> Inl IndexError
      | Some color \<Rightarrow>
         if \<not> is_black_white color then Inl AssertionError
         else (case put (replicate (nat (maxpoint b)) False) stone True of
                 None \<Rightarrow> Inl IndexError
               | Some marker \<Rightarrow> fill_block b color marker [stone]))"

definition fast_liberty_check :: "go_board \<Rightarrow> int \<Rightarrow> error + bool" where
  "fast_liberty_check b nb_point =
     (case get (liberty_of b) nb_point of
        None \<Rightarrow> Inl IndexError
      | Some None \<Rightarrow> stone_has_liberty b nb_point
      | Some (Some lib) \<Rightarrow>
         (case get (board b) lib of
            None \<Rightarrow> Inl IndexError
          | Some v \<Rightarrow> if v = EMPTY then Inr True else stone_has_liberty b nb_point))"

definition detect_capture :: "go_board \<Rightarrow> int \<Rightarrow> error + (bool \<times> go_board)" where
  "detect_capture b nb_point =
     bind_err (fast_liberty_check b nb_point) (\<lambda>fast.
       if fast then Inr (False, b)
       else bind_err (block_of b nb_point) (\<lambda>opp_block.
            bind_err (has_liberty b opp_block) (\<lambda>(h, b'). Inr (\<not> h, b'))))"

fun detect_captures_loop :: "go_board \<Rightarrow> int list \<Rightarrow> error + (bool \<times> go_board)" where
  "detect_captures_loop b [] = Inr (False, b)"
| "detect_captures_loop b (nb # nbs) =
     (case detect_capture b nb of
        Inl e \<Rightarrow> Inl e
      | Inr (captured, b') \<Rightarrow> if captured then Inr (True, b') else detect_captures_loop b' nbs)"

definition detect_captures :: "go_board \<Rightarrow> int \<Rightarrow> cell \<Rightarrow> error + (bool \<times> go_board)" where
  "detect_captures b point opp_color =
     bind_err (neighbors_of_color b point opp_color) (detect_captures_loop b)"

text \<open>
  \<^verbatim>\<open>is_legal\<close> for a point that is an index (its callers here never pass PASS): the
  colour assertion, the two early returns, then the trial stone, the capture and
  liberty tests on the changed grid, and the write that takes the stone off.
\<close>

definition suicide_test :: "go_board \<Rightarrow> int \<Rightarrow> bool \<Rightarrow> error + (bool \<times> go_board)" where
  "suicide_test b point has_capture =
     (if has_capture then Inr (True, b)
      else bind_err (stone_has_liberty b point) (\<lambda>free.
        if free then Inr (True, b)
        else bind_err (block_of b point) (\<lambda>block. has_liberty b block)))"

definition is_legal :: "go_board \<Rightarrow> int \<Rightarrow> cell \<Rightarrow> error + (bool \<times> go_board)" where
  "is_legal b point color =
     (if \<not> is_black_white color then Inl AssertionError
      else case get (board b) point of
        None \<Rightarrow> Inl IndexError
      | Some v \<Rightarrow>
         if v \<noteq> EMPTY then Inr (False, b)
         else if ko_recapture b = Some point then Inr (False, b)
         else (case put (board b) point color of
                 None \<Rightarrow> Inl IndexError
               | Some xs \<Rightarrow>
                  bind_err (detect_captures (b\<lparr>board := xs\<rparr>) point (opponent color)) (\<lambda>(has_capture, b2).
                  bind_err (suicide_test b2 point has_capture) (\<lambda>(legal, b3).
                    case put (board b3) point EMPTY of
                      None \<Rightarrow> Inl IndexError
                    | Some ys \<Rightarrow> Inr (legal, b3\<lparr>board := ys\<rparr>)))))"

section \<open>Move ordering\<close>

text \<open>
  \<^verbatim>\<open>direction_check_connect_gomoko\<close>. Its first loop walks from \<^verbatim>\<open>point\<close> in steps of
  \<^verbatim>\<open>shift\<close>; when the count reaches \<^verbatim>\<open>max\<close> it asks \<^verbatim>\<open>is_legal\<close> for the cell after
  the run and, failing that, for the cell before \<^verbatim>\<open>point\<close>, and stops. The second
  loop walks the other way and asks for the cell after the run only. Each loop
  returns the count, the points found and the board object after the legality tests.
\<close>

function dc_forward ::
  "go_board \<Rightarrow> cell \<Rightarrow> int \<Rightarrow> int \<Rightarrow> int \<Rightarrow> nat \<Rightarrow> nat \<Rightarrow> error + ((nat \<times> int list) \<times> go_board)" where
  "dc_forward b color point p d count mx =
     (case get (board b) (p + d) of
        None \<Rightarrow> Inl IndexError
      | Some v \<Rightarrow>
          if v = color then
            (if count + 1 = mx then
               (case is_legal b (p + d + d) color of
                  Inl e \<Rightarrow> Inl e
                | Inr (True, b1) \<Rightarrow> Inr ((count + 1, [p + d + d]), b1)
                | Inr (False, b1) \<Rightarrow>
                   (case is_legal b1 (point + (- d)) color of
                      Inl e \<Rightarrow> Inl e
                    | Inr (True, b2) \<Rightarrow> Inr ((count + 1, [point + (- d)]), b2)
                    | Inr (False, b2) \<Rightarrow> Inr ((count + 1, []), b2)))
             else if d = 0 \<and> mx < count + 1 then Inl Diverges
             else dc_forward b color point (p + d) d (count + 1) mx)
          else Inr ((count, []), b))"
  by pat_completeness auto
termination
proof (relation "measure (\<lambda>(b, color, point, p, d, count, mx).
          if d = 0 then mx - count
          else if 0 < d then nat (int (length (board b)) - p)
          else nat (p + int (length (board b)) + 1))", goal_cases)
  case 1
  show ?case by simp
next
  case (2 b color point p d count mx v)
  then show ?case
    by (auto simp: get_def norm_idx_def split: option.splits if_splits)
qed

declare dc_forward.simps [simp del]

function dc_backward ::
  "go_board \<Rightarrow> cell \<Rightarrow> int \<Rightarrow> int \<Rightarrow> nat \<Rightarrow> nat \<Rightarrow> int list \<Rightarrow> error + ((nat \<times> int list) \<times> go_board)" where
  "dc_backward b color p d count mx pointWin =
     (case get (board b) (p + d) of
        None \<Rightarrow> Inl IndexError
      | Some v \<Rightarrow>
          if v = color then
            (if count + 1 = mx then
               (case is_legal b (p + d + d) color of
                  Inl e \<Rightarrow> Inl e
                | Inr (True, b1) \<Rightarrow> Inr ((count + 1, pointWin @ [p + d + d]), b1)
                | Inr (False, b1) \<Rightarrow> Inr ((count + 1, pointWin), b1))
             else if d = 0 \<and> mx < count + 1 then Inl Diverges
             else dc_backward b color (p + d) d (count + 1) mx pointWin)
          else Inr ((count, pointWin), b))"
  by pat_completeness auto
termination
proof (relation "measure (\<lambda>(b, color, p, d, count, mx, pointWin).
          if d = 0 then mx - count
          else if 0 < d then nat (int (length (board b)) - p)
          else nat (p + int (length (board b)) + 1))", goal_cases)
  case 1
  show ?case by simp
next
  case (2 b color p d count mx pointWin v)
  then show ?case
    by (auto simp: get_def norm_idx_def split: option.splits if_splits)
qed

declare dc_backward.simps [simp del]

definition direction_check_connect_gomoko ::
  "go_board \<Rightarrow> int \<Rightarrow> int \<Rightarrow> nat \<Rightarrow> error + ((bool \<times> int list) \<times> go_board)" where
  "direction_check_connect_gomoko b point shift mx =
     (case get (board b) point of
        None \<Rightarrow> Inl IndexError
      | Some color \<Rightarrow>
         bind_err (dc_forward b color point point shift 1 mx) (\<lambda>((count, pointWin), b1).
         bind_err (dc_backward b1 color point (- shift) count mx pointWin) (\<lambda>((count, pointWin), b2).
           Inr ((count = mx, pointWin), b2))))"

text \<open>
  \<^verbatim>\<open>check_n\<close> collects the points of the four axes and returns \<^verbatim>\<open>False\<close> (here
  \<open>None\<close>) when there are none, and \<^verbatim>\<open>list(set(list_p))\<close> otherwise. The order in
  which Python iterates over a set of integers is a property of the interpreter; it is
  the parameter \<open>set_list\<close> of the model.
\<close>

fun check_n_axes ::
  "go_board \<Rightarrow> int \<Rightarrow> nat \<Rightarrow> int list \<Rightarrow> int list \<Rightarrow> error + (int list \<times> go_board)" where
  "check_n_axes b point mx [] list_p = Inr (list_p, b)"
| "check_n_axes b point mx (d # ds) list_p =
     (case direction_check_connect_gomoko b point d mx of
        Inl e \<Rightarrow> Inl e
      | Inr ((check, pointToWin), b1) \<Rightarrow>
          check_n_axes b1 point mx ds (if check then list_p @ pointToWin else list_p))"

definition check_n ::
  "(int list \<Rightarrow> int list) \<Rightarrow> go_board \<Rightarrow> int \<Rightarrow> nat \<Rightarrow> error + (int list option \<times> go_board)" where
  "check_n set_list b point mx =
     bind_err (check_n_axes b point mx (axes b) []) (\<lambda>(list_p, b1).
       Inr (if list_p = [] then None else Some (set_list list_p), b1))"

text \<open>
  One \<^verbatim>\<open>for point in ...\<close> loop of \<^verbatim>\<open>order_the_point\<close>. The source calls \<^verbatim>\<open>check_n\<close>
  twice for a point, first for the test against \<^verbatim>\<open>False\<close> and then for the list; a
  second call that returned \<^verbatim>\<open>False\<close> would make the list comprehension raise
  TypeError.
\<close>

fun bucket ::
  "(int list \<Rightarrow> int list) \<Rightarrow> go_board \<Rightarrow> nat \<Rightarrow> int list \<Rightarrow> int list \<Rightarrow> error + (int list \<times> go_board)" where
  "bucket set_list b mx [] final = Inr (final, b)"
| "bucket set_list b mx (point # points) final =
     (case check_n set_list b point mx of
        Inl e \<Rightarrow> Inl e
      | Inr (None, b1) \<Rightarrow> bucket set_list b1 mx points final
      | Inr (Some _, b1) \<Rightarrow>
         (case check_n set_list b1 point mx of
            Inl e \<Rightarrow> Inl e
          | Inr (None, b2) \<Rightarrow> Inl TypeError
          | Inr (Some list_temp, b2) \<Rightarrow>
              bucket set_list b2 mx points (final @ filter (\<lambda>x. x \<notin> set final) list_temp)))"

text \<open>
  \<^verbatim>\<open>generate_legal_moves\<close> copies \<^verbatim>\<open>get_empty_points()\<close>, the indices of the EMPTY
  cells in ascending order.
\<close>

definition generate_legal_moves :: "go_board \<Rightarrow> int list" where
  "generate_legal_moves b = where1d_eq (board b) EMPTY"

text \<open>
  \<^verbatim>\<open>order_the_point\<close>: the two branches of the source differ in the list of stones
  only (WHITE's for \<^verbatim>\<open>color == 2\<close>, BLACK's for anything else).
\<close>

definition order_the_point ::
  "(int list \<Rightarrow> int list) \<Rightarrow> go_board \<Rightarrow> cell \<Rightarrow> error + (int list \<times> go_board)" where
  "order_the_point set_list b color =
     (let points = (if color = WHITE then where1d_eq (board b) WHITE
                    else where1d_eq (board b) BLACK) in
      bind_err (bucket set_list b 4 points []) (\<lambda>(final_4, b1).
      bind_err (bucket set_list b1 3 points []) (\<lambda>(final_3, b2).
        let final_3 = filter (\<lambda>x. x \<notin> set final_4) final_3;
            final_final_list = final_4 @ final_3 in
      bind_err (bucket set_list b2 2 points []) (\<lambda>(final_2, b3).
        let final_2 = filter (\<lambda>x. x \<notin> set final_final_list) final_2;
            final_final_list = final_final_list @ final_2 in
      bind_err (bucket set_list b3 1 points []) (\<lambda>(final_1, b4).
        let final_1 = filter (\<lambda>x. x \<notin> set final_final_list) final_1;
            final_final_list = final_final_list @ final_1;
            list_temp = generate_legal_moves b4;
            total_list = filter (\<lambda>x. x \<notin> set final_final_list) list_temp
        in Inr (final_final_list @ total_list, b4))))))"

text \<open>The second board object is the first one with another liberty cache.\<close>

definition only_liberty :: "go_board \<Rightarrow> go_board \<Rightarrow> bool" where
  "only_liberty b b' = (b' = b\<lparr>liberty_of := liberty_of b'\<rparr>)"

section \<open>Board objects on which the legality test is decided by the cell alone\<close>








section \<open>The minimax solver\<close>

text \<open>
  \<^verbatim>\<open>minimax\<close> of \<^verbatim>\<open>gtp_connection.py\<close> returns a pair: \<^verbatim>\<open>True\<close>, \<^verbatim>\<open>False\<close>,
  \<^verbatim>\<open>"draw"\<close> or \<^verbatim>\<open>"unknown"\<close>, and a second component that is \<^verbatim>\<open>False\<close>,
  \<^verbatim>\<open>True\<close>, the integer 1 or a move. The node kind is the string \<^verbatim>\<open>'or'\<close> or
  \<^verbatim>\<open>'and'\<close>.
\<close>

datatype turn = Or | And

datatype outcome = OTrue | OFalse | ODraw | OUnknown

datatype mm_move = MFalse | MTrue | MInt int

fun whosturn :: "turn \<Rightarrow> bool" where
  "whosturn Or = True"
| "whosturn And = False"

text \<open>
  Modelled from the spec: \<^verbatim>\<open>GoBoardUtil.generate_legal_moves_gomoku\<close> is not part of
  the sources at hand; the legal moves are all EMPTY cells.
\<close>

definition generate_legal_moves_gomoku :: "go_board \<Rightarrow> int list" where
  "generate_legal_moves_gomoku b = where1d_eq (board b) EMPTY"

text \<open>
  The search works on the one board object and reads the process clock after every
  child call. In the model the board is passed through, \<open>clk k\<close> is the elapsed time
  \<^verbatim>\<open>time.process_time() - self.s_time\<close> at the \<open>k\<close>-th reading, and \<open>tlimit\<close> is
  \<^verbatim>\<open>self.time\<close>: the integer set by the \<^verbatim>\<open>timelimit\<close> command, or \<open>None\<close> when the
  command was never given and the attribute still holds the \<^verbatim>\<open>time\<close> module, which
  cannot be compared with a number. \<open>depth\<close> bounds the nesting of calls as the
  interpreter's recursion limit does.
\<close>

fun minimax ::
  "(int list \<Rightarrow> int list) \<Rightarrow> (nat \<Rightarrow> rat) \<Rightarrow> int option \<Rightarrow> nat \<Rightarrow> go_board \<Rightarrow> nat \<Rightarrow> cell \<Rightarrow> turn
     \<Rightarrow> error + ((outcome \<times> mm_move) \<times> go_board \<times> nat)"
and mm_loop ::
  "(int list \<Rightarrow> int list) \<Rightarrow> (nat \<Rightarrow> rat) \<Rightarrow> int option \<Rightarrow> nat \<Rightarrow> go_board \<Rightarrow> nat \<Rightarrow> cell \<Rightarrow> turn
     \<Rightarrow> int list \<Rightarrow> int list \<Rightarrow> error + ((outcome \<times> mm_move) \<times> go_board \<times> nat)"
where
  "minimax set_list clk tlimit 0 b k color turn = Inl RecursionError"
| "minimax set_list clk tlimit (Suc depth) b k color turn =
     (case check_game_end_gomoku b of
        Inl e \<Rightarrow> Inl e
      | Inr (True, winner) \<Rightarrow>
          if whosturn turn then
            (if winner \<noteq> Some color then Inr ((OFalse, MFalse), b, k)
             else Inr ((OTrue, MInt 1), b, k))
          else Inr ((OFalse, MFalse), b, k)
      | Inr (False, winner) \<Rightarrow>
         (case order_the_point set_list b color of
            Inl e \<Rightarrow> Inl e
          | Inr (moves, b1) \<Rightarrow>
              if moves = [] then Inr ((ODraw, MFalse), b1, k)
              else mm_loop set_list clk tlimit depth b1 k color turn moves []))"
| "mm_loop set_list clk tlimit depth b k color turn [] draw_list =
     (if draw_list \<noteq> [] then Inr ((ODraw, MInt (hd draw_list)), b, k)
      else if whosturn turn then Inr ((OFalse, MFalse), b, k)
      else Inr ((OTrue, MTrue), b, k))"
| "mm_loop set_list clk tlimit depth b k color turn (move # moves) draw_list =
     (case play_move_gomoku b (Some move) color of
        Inl e \<Rightarrow> Inl e
      | Inr (played, b1) \<Rightarrow>
         (case check_game_end_gomoku b1 of
            Inl e \<Rightarrow> Inl e
          | Inr (if_finish, winner) \<Rightarrow>
              if if_finish \<and> whosturn turn then
                (case undo b1 move of
                   Inl e \<Rightarrow> Inl e
                 | Inr b2 \<Rightarrow> Inr ((OTrue, MInt move), b2, k))
              else if if_finish \<and> winner = Some color then
                (case undo b1 move of
                   Inl e \<Rightarrow> Inl e
                 | Inr b2 \<Rightarrow> Inr ((OFalse, MFalse), b2, k))
              else if generate_legal_moves_gomoku b1 = [] then
                (case undo b1 move of
                   Inl e \<Rightarrow> Inl e
                 | Inr b2 \<Rightarrow> Inr ((ODraw, MInt move), b2, k))
              else
                (case minimax set_list clk tlimit depth b1 k
                        (if color = BLACK then WHITE else BLACK)
                        (if whosturn turn then And else Or) of
                   Inl e \<Rightarrow> Inl e
                 | Inr (mm_return, b2, k2) \<Rightarrow>
                    (case undo b2 move of
                       Inl e \<Rightarrow> Inl e
                     | Inr b3 \<Rightarrow>
                        (case tlimit of
                           None \<Rightarrow> Inl TypeError
                         | Some l \<Rightarrow>
                            if clk k2 > of_int l then Inr ((OUnknown, MFalse), b3, Suc k2)
                            else if whosturn turn \<and> fst mm_return = OTrue then
                              Inr ((OTrue, MInt move), b3, Suc k2)
                            else if \<not> whosturn turn \<and> fst mm_return = OFalse then
                              Inr ((OFalse, MFalse), b3, Suc k2)
                            else if fst mm_return = OUnknown then
                              Inr ((OUnknown, MFalse), b3, Suc k2)
                            else mm_loop set_list clk tlimit depth b3 (Suc k2) color turn moves
                                   (if fst mm_return = ODraw then draw_list @ [move]
                                    else draw_list))))))"

text \<open>
  \<^verbatim>\<open>solve_cmd\<close> resets the clock reference and searches from an OR node for the
  player to move.
\<close>

definition solve ::
  "(int list \<Rightarrow> int list) \<Rightarrow> (nat \<Rightarrow> rat) \<Rightarrow> int option \<Rightarrow> nat \<Rightarrow> go_board \<Rightarrow> cell
     \<Rightarrow> error + ((outcome \<times> mm_move) \<times> go_board \<times> nat)" where
  "solve set_list clk tlimit depth b color = minimax set_list clk tlimit depth b 0 color Or"

section \<open>The search tree of the Monte Carlo search\<close>

text \<open>
  A win count is Python's \<^verbatim>\<open>0\<close>, a quotient \<^verbatim>\<open>wins / loss\<close> of two playout counts
  or \<^verbatim>\<open>math.inf\<close>.
\<close>

datatype score = Num rat | Infinity

text \<open>
  \<^verbatim>\<open>class state\<close>: the four attributes its constructor sets, \<^verbatim>\<open>sim\<close>, \<^verbatim>\<open>win\<close>,
  \<^verbatim>\<open>first\<close> (the parent's key) and \<^verbatim>\<open>move\<close>. The tree is a dictionary from board
  signatures (strings) to such objects.
\<close>

record mc_state =
  sim :: int
  win :: score
  first :: string
  move :: "int option"

type_synonym mc_tree = "(string \<times> mc_state) list"

text \<open>
  \<^verbatim>\<open>BackProp\<close>. The loop body starts with
  \<^verbatim>\<open>Monte_Carlo_Tree[first].simulation += 1\<close>: the lookup raises KeyError when the key
  is missing, and the read of the attribute \<^verbatim>\<open>simulation\<close>, which no \<^verbatim>\<open>state\<close>
  object has, raises AttributeError otherwise. So the loop either is not entered
  (\<^verbatim>\<open>first == stop\<close>) or ends in its first statement. The parameter \<^verbatim>\<open>first\<close> is
  called \<open>node\<close> here, \<open>first\<close> being the attribute.
\<close>

definition BackProp :: "mc_tree \<Rightarrow> string \<Rightarrow> string \<Rightarrow> bool \<Rightarrow> error + mc_tree" where
  "BackProp tree node stop if_win =
     (if node \<noteq> stop then
        (case map_of tree node of None \<Rightarrow> Inl KeyError | Some s \<Rightarrow> Inl AttributeError)
      else Inr tree)"

text \<open>A tree with one node \<open>k\<close>, a child of the root \<open>r\<close>, reached by the move 9.\<close>

definition one_node_tree :: mc_tree where
  "one_node_tree = [(''k'', \<lparr>sim = 1, win = Num 0, first = ''r'', move = Some 9\<rparr>)]"

section \<open>Example positions\<close>

text \<open>A 2 x 2 board with one BLACK stone on its first point (index 4), WHITE to move.\<close>

definition one_stone_board :: go_board where
  "one_stone_board = (reset 2)\<lparr>board :=
      [BORDER, BORDER, BORDER, BORDER, BLACK, EMPTY, BORDER, EMPTY, EMPTY,
       BORDER, BORDER, BORDER, BORDER], current_player := WHITE\<rparr>"

text \<open>Stones put on a board one by one, for setting up positions.\<close>

definition place :: "go_board \<Rightarrow> (nat \<times> cell) list \<Rightarrow> go_board" where
  "place b st = b\<lparr>board := foldl (\<lambda>xs (p, c). xs[p := c]) (board b) st\<rparr>"

text \<open>
  A 5 x 5 board (rows start at 7, 13, 19, 25, 31) with WHITE on the whole first column
  and four BLACK stones on the second.
\<close>

definition white_five_board :: go_board where
  "white_five_board = place (reset 5)
     [(7, WHITE), (13, WHITE), (19, WHITE), (25, WHITE), (31, WHITE),
      (8, BLACK), (14, BLACK), (20, BLACK), (26, BLACK)]"

text \<open>
  A 7 x 7 board (row 1 is the indices 9 .. 15) with BLACK on columns 2, 3 and 4 of
  row 1 and nothing else: the pattern .XXX... against the left edge.
\<close>

definition three_row_board :: go_board where
  "three_row_board = place (reset 7) [(10, BLACK), (11, BLACK), (12, BLACK)]"

text \<open>
  A 7 x 7 board on which BLACK has four in a row on columns 2 to 5 of row 1 (indices
  10 to 13), closed by WHITE on column 6; the completing cell is the corner, index 9,
  and filling it is suicide by the Go rule: the block would have no liberty.
\<close>

definition suicide_four_board :: go_board where
  "suicide_four_board = place (reset 7)
     [(10, BLACK), (11, BLACK), (12, BLACK), (13, BLACK), (19, BLACK),
      (14, WHITE), (17, WHITE), (18, WHITE), (20, WHITE), (21, WHITE), (27, WHITE)]"

text \<open>An iteration order for sets of integers, used in examples: ascending.\<close>

definition ascending :: "int list \<Rightarrow> int list" where
  "ascending xs = sort (remdups xs)"

text \<open>
  A 7 x 7 board with two BLACK fours, on columns 1 to 4 of row 1 (indices 9 to 12,
  completed by 13) and of row 3 (indices 25 to 28, completed by 29), and eight WHITE
  stones in rows 5 and 6.
\<close>

definition two_fours_board :: go_board where
  "two_fours_board = place (reset 7)
     [(9, BLACK), (10, BLACK), (11, BLACK), (12, BLACK),
      (25, BLACK), (26, BLACK), (27, BLACK), (28, BLACK),
      (41, WHITE), (42, WHITE), (44, WHITE), (45, WHITE),
      (49, WHITE), (50, WHITE), (52, WHITE), (53, WHITE)]"

text \<open>
  Two clocks: one on which every reading is 0 seconds, one on which every reading is
  1000 seconds, far beyond any limit the \<^verbatim>\<open>timelimit\<close> command accepts (1 to 100).
\<close>

definition early_clock :: "nat \<Rightarrow> rat" where
  "early_clock k = 0"

definition late_clock :: "nat \<Rightarrow> rat" where
  "late_clock k = 1000"

text \<open>The empty 2 x 2 board after BLACK has played its first point.\<close>

definition opened_board :: go_board where
  "opened_board = (place (reset 2) [(4, BLACK)])\<lparr>current_player := WHITE\<rparr>"

section \<open>Playing and undoing a move\<close>

lemma get_put_same: "put xs p v = Some ys \<Longrightarrow> get ys p = Some v"
  by (auto simp: get_def put_def norm_idx_def split: if_splits option.splits)

lemma put_restore:
  assumes "get xs p = Some v" and "put xs p w = Some ys"
  shows "put ys p v = Some xs"
  using assms
  by (auto simp: get_def put_def norm_idx_def list_update_same_conv split: if_splits option.splits)

lemma get_Some_put: "get xs p = Some v \<Longrightarrow> \<exists>ys. put xs p w = Some ys"
  by (auto simp: get_def put_def split: option.splits)

text \<open>
  C3. On a point whose cell is not EMPTY, \<^verbatim>\<open>play_move_gomoku\<close> returns False and the
  board object it leaves behind is the one it was given: every cell of the grid and
  \<^verbatim>\<open>current_player\<close> are as before the call.
\<close>

theorem play_occupied_unchanged:
  assumes "get (board b) p = Some v" and "v \<noteq> EMPTY" and "is_black_white c"
  shows "play_move_gomoku b (Some p) c = Inr (False, b)"
  using assms by (simp add: play_move_gomoku_def)

theorem play_occupied_unchanged_witness:
  "get (board one_stone_board) 4 = Some BLACK \<and> BLACK \<noteq> EMPTY \<and> is_black_white WHITE \<and>
   play_move_gomoku one_stone_board (Some 4) WHITE = Inr (False, one_stone_board)"
proof -
  have h1: "get (board one_stone_board) 4 = Some BLACK" by code_simp
  have h2: "BLACK \<noteq> EMPTY" by simp
  have h3: "is_black_white WHITE" by simp
  show ?thesis using play_occupied_unchanged [OF h1 h2 h3] h1 by simp
qed

text \<open>
  C4, as stated, fails on an occupied point: the play is refused, and \<^verbatim>\<open>undo\<close> then
  empties the cell that held a stone before the two calls.
\<close>

theorem play_undo_occupied_counterexample:
  "play_move_gomoku one_stone_board (Some 4) WHITE = Inr (False, one_stone_board) \<and>
   undo one_stone_board 4 = Inr ((reset 2)\<lparr>current_player := WHITE\<rparr>) \<and>
   board ((reset 2)\<lparr>current_player := WHITE\<rparr>) \<noteq> board one_stone_board"
  by code_simp

text \<open>
  C4, amended. On a point whose cell is EMPTY and for a colour BLACK or WHITE,
  \<^verbatim>\<open>play_move_gomoku\<close> succeeds and the following \<^verbatim>\<open>undo\<close> of the same point gives
  back the grid as it was; of the whole board object only \<^verbatim>\<open>current_player\<close> differs.
\<close>

theorem play_undo_restores:
  assumes "get (board b) p = Some EMPTY" and "is_black_white c"
  shows "\<exists>b1. play_move_gomoku b (Some p) c = Inr (True, b1) \<and>
              undo b1 p = Inr (b\<lparr>current_player := opponent c\<rparr>)"
proof -
  obtain xs where xs: "put (board b) p c = Some xs"
    using get_Some_put [OF assms(1)] by blast
  have restored: "put xs p EMPTY = Some (board b)"
    using put_restore [OF assms(1) xs] .
  have "play_move_gomoku b (Some p) c = Inr (True, b\<lparr>board := xs, current_player := opponent c\<rparr>)"
    using assms xs by (simp add: play_move_gomoku_def)
  moreover have "undo (b\<lparr>board := xs, current_player := opponent c\<rparr>) p
                   = Inr (b\<lparr>current_player := opponent c\<rparr>)"
    using restored by (simp add: undo_def)
  ultimately show ?thesis by blast
qed

theorem play_undo_restores_witness:
  "get (board (reset 2)) 4 = Some EMPTY \<and> is_black_white BLACK \<and>
   (\<exists>b1. play_move_gomoku (reset 2) (Some 4) BLACK = Inr (True, b1) \<and>
         undo b1 4 = Inr ((reset 2)\<lparr>current_player := opponent BLACK\<rparr>))"
proof -
  have h1: "get (board (reset 2)) 4 = Some EMPTY" by code_simp
  have h2: "is_black_white BLACK" by simp
  show ?thesis using play_undo_restores [OF h1 h2] h1 by simp
qed

text \<open>
  C9, as stated, fails when the colour played is not the player to move: on the fresh
  board BLACK is to move, WHITE plays, and BLACK is still to move afterwards.
\<close>

theorem play_flip_counterexample:
  "current_player (reset 2) = BLACK \<and>
   play_move_gomoku (reset 2) (Some 4) WHITE
     = Inr (True, (reset 2)\<lparr>board :=
         [BORDER, BORDER, BORDER, BORDER, WHITE, EMPTY, BORDER, EMPTY, EMPTY,
          BORDER, BORDER, BORDER, BORDER], current_player := BLACK\<rparr>) \<and>
   BLACK \<noteq> opponent BLACK"
  by code_simp

text \<open>
  C9, amended. After a successful \<^verbatim>\<open>play_move_gomoku\<close> the player to move is the
  opponent of the colour that was played; it is the opponent of the previous player to
  move exactly when that colour was the previous player to move.
\<close>

theorem play_sets_current_player:
  assumes "play_move_gomoku b point c = Inr (True, b1)"
  shows "current_player b1 = opponent c \<and>
         (current_player b1 = opponent (current_player b) \<longleftrightarrow> c = current_player b)"
proof -
  have inj: "opponent x = opponent y \<longleftrightarrow> x = y" for x y
    by (cases x; cases y) simp_all
  have "current_player b1 = opponent c"
    using assms
    by (auto simp: play_move_gomoku_def split: if_splits option.splits)
  then show ?thesis using inj by simp
qed

theorem play_sets_current_player_witness:
  "play_move_gomoku (reset 2) (Some 4) BLACK
     = Inr (True, (reset 2)\<lparr>board :=
         [BORDER, BORDER, BORDER, BORDER, BLACK, EMPTY, BORDER, EMPTY, EMPTY,
          BORDER, BORDER, BORDER, BORDER], current_player := WHITE\<rparr>) \<and>
   current_player ((reset 2)\<lparr>board :=
         [BORDER, BORDER, BORDER, BORDER, BLACK, EMPTY, BORDER, EMPTY, EMPTY,
          BORDER, BORDER, BORDER, BORDER], current_player := WHITE\<rparr>) = opponent BLACK"
proof -
  have h: "play_move_gomoku (reset 2) (Some 4) BLACK
     = Inr (True, (reset 2)\<lparr>board :=
         [BORDER, BORDER, BORDER, BORDER, BLACK, EMPTY, BORDER, EMPTY, EMPTY,
          BORDER, BORDER, BORDER, BORDER], current_player := WHITE\<rparr>)" by code_simp
  show ?thesis using play_sets_current_player [OF h] h by simp
qed

section \<open>The terminal check finds exactly the fives\<close>

lemma on_board_range:
  assumes "2 \<le> sz" and "on_board sz p"
  shows "sz + 2 \<le> p \<and> p \<le> sz * sz + 2 * sz"
proof -
  define q where "q = p div (sz + 1)"
  define r where "r = p mod (sz + 1)"
  have p: "p = q * (sz + 1) + r" unfolding q_def r_def by (rule div_mult_mod_eq [symmetric])
  have q: "1 \<le> q" "q \<le> sz" and r1: "1 \<le> r"
    using assms(2) by (simp_all add: on_board_def q_def r_def)
  have r2: "r < sz + 1" unfolding r_def by (rule pos_mod_bound) (use assms(1) in simp)
  have lo: "1 * (sz + 1) \<le> q * (sz + 1)"
    using q(1) assms(1) by (intro mult_right_mono) simp_all
  have hi: "q * (sz + 1) \<le> sz * (sz + 1)"
    using q(2) assms(1) by (intro mult_right_mono) simp_all
  show ?thesis using p lo hi r1 r2 by (simp add: algebra_simps)
qed

lemma wf_length: "wf_board b \<Longrightarrow> int (length (board b)) = size b * size b + 3 * size b + 3"
  by (simp add: wf_board_def)

lemma wf_border_iff:
  assumes "wf_board b" and "0 \<le> p" and "p < int (length (board b))"
  shows "(get (board b) p = Some BORDER) = (\<not> on_board (size b) p)"
proof -
  have "nat p < length (board b)" using assms by simp
  then have "(board b ! nat p = BORDER) = (\<not> on_board (size b) (int (nat p)))"
    using assms(1) by (simp add: wf_board_def list_all_iff)
  then show ?thesis using assms by (simp add: get_def norm_idx_def)
qed

lemma wf_step_range:
  assumes "wf_board b" and "on_board (size b) p" and "d \<in> set (axes b) \<or> - d \<in> set (axes b)"
  shows "0 \<le> p + d \<and> p + d < int (length (board b))"
proof -
  have sz: "2 \<le> size b" and ns: "NS b = size b + 1" using assms(1) by (simp_all add: wf_board_def)
  have r: "size b + 2 \<le> p" "p \<le> size b * size b + 2 * size b"
    using on_board_range [OF sz assms(2)] by simp_all
  have d: "- (size b + 2) \<le> d \<and> d \<le> size b + 2"
    using assms(3) sz by (auto simp: axes_def ns)
  show ?thesis using r d wf_length [OF assms(1)] by simp
qed

lemma wf_step_on_board:
  assumes "wf_board b" and "on_board (size b) p" and "d \<in> set (axes b) \<or> - d \<in> set (axes b)"
    and "get (board b) (p + d) = Some c" and "c \<noteq> BORDER"
  shows "on_board (size b) (p + d)"
  using wf_border_iff [OF assms(1), of "p + d"] wf_step_range [OF assms(1,2,3)] assms(4,5)
  by auto

lemma wf_step_readable:
  assumes "wf_board b" and "on_board (size b) p" and "d \<in> set (axes b) \<or> - d \<in> set (axes b)"
  shows "\<exists>v. get (board b) (p + d) = Some v"
  using wf_step_range [OF assms] by (simp add: get_def norm_idx_def)

lemma axes_nonzero: "wf_board b \<Longrightarrow> d \<in> set (axes b) \<or> - d \<in> set (axes b) \<Longrightarrow> d \<noteq> 0"
  by (auto simp: wf_board_def axes_def)

lemma connect_loop_total:
  assumes wf: "wf_board b"
  shows "c \<noteq> BORDER \<Longrightarrow> d \<in> set (axes b) \<or> - d \<in> set (axes b) \<Longrightarrow> on_board (size b) p
         \<Longrightarrow> \<exists>r. connect_loop (board b) c p d k = Inr r"
proof (induction "board b" c p d k rule: connect_loop.induct)
  case (1 color p d count)
  obtain v where v: "get (board b) (p + d) = Some v"
    using wf_step_readable [OF wf "1.prems"(3,2)] by blast
  have d0: "d \<noteq> 0" using axes_nonzero [OF wf "1.prems"(2)] .
  show ?case
  proof (cases "v = color \<and> count + 1 \<noteq> 5")
    case True
    have ob: "on_board (size b) (p + d)"
      using wf_step_on_board [OF wf "1.prems"(3,2)] v True "1.prems"(1) by simp
    have "\<exists>r. connect_loop (board b) color (p + d) d (count + 1) = Inr r"
      using "1.hyps" [OF v] True d0 "1.prems"(1,2) ob by simp
    then show ?thesis
      using v True d0 by (subst connect_loop.simps) simp
  next
    case False
    then show ?thesis using v by (subst connect_loop.simps) auto
  qed
qed

lemma run_0: "run xs c p d 0" by (simp add: run_def)

lemma run_Suc_front:
  "run xs c p d (Suc m) = (get xs (p + d) = Some c \<and> run xs c (p + d) d m)"
proof
  assume r: "run xs c p d (Suc m)"
  have "get xs (p + d) = Some c" using r [unfolded run_def, rule_format, of 1] by simp
  moreover have "run xs c (p + d) d m"
    unfolding run_def
  proof (intro allI impI)
    fix k assume "1 \<le> k \<and> k \<le> m"
    then have "get xs (p + int (Suc k) * d) = Some c"
      using r [unfolded run_def, rule_format, of "Suc k"] by simp
    then show "get xs (p + d + int k * d) = Some c" by (simp add: algebra_simps)
  qed
  ultimately show "get xs (p + d) = Some c \<and> run xs c (p + d) d m" by simp
next
  assume a: "get xs (p + d) = Some c \<and> run xs c (p + d) d m"
  show "run xs c p d (Suc m)"
    unfolding run_def
  proof (intro allI impI)
    fix k assume k: "1 \<le> k \<and> k \<le> Suc m"
    show "get xs (p + int k * d) = Some c"
    proof (cases "k = 1")
      case True then show ?thesis using a by simp
    next
      case False
      then obtain j where j: "k = Suc j" "1 \<le> j" "j \<le> m" using k by (cases k) auto
      have "get xs (p + d + int j * d) = Some c"
        using a j unfolding run_def by blast
      then show ?thesis using j by (simp add: algebra_simps)
    qed
  qed
qed

lemma connect_loop_mono:
  "connect_loop xs c p d k = Inr r \<Longrightarrow> k \<le> r \<and> (k < r \<longrightarrow> get xs (p + d) = Some c)"
proof (induction xs c p d k arbitrary: r rule: connect_loop.induct)
  case (1 xs color p d count)
  show ?case
  proof (cases "get xs (p + d)")
    case None
    then show ?thesis using "1.prems" by (subst (asm) connect_loop.simps) (auto split: if_splits)
  next
    case (Some v)
    show ?thesis
    proof (cases "v = color \<and> count + 1 \<noteq> 5 \<and> \<not> (d = 0 \<and> 5 < count + 1)")
      case True
      then have "connect_loop xs color (p + d) d (count + 1) = Inr r"
        using "1.prems" Some by (subst (asm) connect_loop.simps) (auto split: if_splits)
      then have "count + 1 \<le> r" using "1.IH" [OF Some] True by blast
      then show ?thesis using Some True by simp
    next
      case False
      then show ?thesis using "1.prems" Some
        by (subst (asm) connect_loop.simps) (auto split: if_splits)
    qed
  qed
qed

lemma connect_loop_run:
  "connect_loop xs c p d k = Inr r \<Longrightarrow> k < 5 \<Longrightarrow> r \<le> 5 \<and> run xs c p d (r - k)"
proof (induction xs c p d k arbitrary: r rule: connect_loop.induct)
  case (1 xs color p d count)
  show ?case
  proof (cases "get xs (p + d)")
    case None
    then show ?thesis using "1.prems" by (subst (asm) connect_loop.simps) (auto split: if_splits)
  next
    case (Some v)
    show ?thesis
    proof (cases "v = color")
      case False
      then have "r = count" using "1.prems" Some by (subst (asm) connect_loop.simps) (auto split: if_splits)
      then show ?thesis using "1.prems" by (simp add: run_0)
    next
      case True
      show ?thesis
      proof (cases "count + 1 = 5")
        case c5: True
        then have "r = 5" using "1.prems" Some True by (subst (asm) connect_loop.simps) (auto split: if_splits)
        moreover have "run xs color p d (Suc 0)"
          using Some True by (simp add: run_Suc_front run_0)
        ultimately show ?thesis using c5 by simp
      next
        case c5: False
        then have rec: "connect_loop xs color (p + d) d (count + 1) = Inr r"
          using "1.prems" Some True by (subst (asm) connect_loop.simps) (auto split: if_splits)
        have lt: "count + 1 < 5" using c5 "1.prems"(2) by simp
        have ih: "r \<le> 5 \<and> run xs color (p + d) d (r - (count + 1))"
          using "1.IH" [OF Some True c5 _ rec lt] "1.prems"(2) by simp
        have ge: "count + 1 \<le> r" using connect_loop_mono [OF rec] by simp
        then have "r - count = Suc (r - (count + 1))" by simp
        then show ?thesis using ih Some True by (simp add: run_Suc_front)
      qed
    qed
  qed
qed

lemma connect_loop_complete:
  "run xs c p d m \<Longrightarrow> k + m = 5 \<Longrightarrow> 1 \<le> m \<Longrightarrow> connect_loop xs c p d k = Inr 5"
proof (induction m arbitrary: p k)
  case 0
  then show ?case by simp
next
  case (Suc m)
  have g: "get xs (p + d) = Some c" and rest: "run xs c (p + d) d m"
    using Suc.prems(1) by (simp_all add: run_Suc_front)
  show ?case
  proof (cases "m = 0")
    case True
    then have "k + 1 = 5" using Suc.prems(2) by simp
    then show ?thesis using g by (subst connect_loop.simps) simp
  next
    case False
    then have "connect_loop xs c (p + d) d (k + 1) = Inr 5"
      using Suc.IH [OF rest] Suc.prems(2) by simp
    moreover have "k + 1 \<noteq> 5" "\<not> 5 < k + 1" using False Suc.prems(2) by simp_all
    ultimately show ?thesis using g by (subst connect_loop.simps) simp
  qed
qed

lemma connect_loop_stop:
  "get xs (p + d) = Some v \<Longrightarrow> v \<noteq> c \<Longrightarrow> connect_loop xs c p d k = Inr k"
  by (subst connect_loop.simps) simp

lemma five_in_line_iff:
  "five_in_line xs c s d = (\<forall>k::nat. k \<le> 4 \<longrightarrow> get xs (s + int k * d) = Some c)"
proof
  assume f: "five_in_line xs c s d"
  show "\<forall>k::nat. k \<le> 4 \<longrightarrow> get xs (s + int k * d) = Some c"
  proof (intro allI impI)
    fix k :: nat assume "k \<le> 4"
    then have "k = 0 \<or> k = 1 \<or> k = 2 \<or> k = 3 \<or> k = 4" by arith
    then show "get xs (s + int k * d) = Some c"
      using f by (auto simp: five_in_line_def)
  qed
next
  assume a: "\<forall>k::nat. k \<le> 4 \<longrightarrow> get xs (s + int k * d) = Some c"
  show "five_in_line xs c s d"
    using a [rule_format, of 0] a [rule_format, of 1] a [rule_format, of 2]
      a [rule_format, of 3] a [rule_format, of 4]
    by (simp add: five_in_line_def)
qed

lemma five_in_line_run:
  "five_in_line xs c s d = (get xs s = Some c \<and> run xs c s d 4)"
proof
  assume f: "five_in_line xs c s d"
  then have "get xs s = Some c" using five_in_line_iff [THEN iffD1, OF f, rule_format, of 0] by simp
  moreover have "run xs c s d 4"
    unfolding run_def using five_in_line_iff [THEN iffD1, OF f] by blast
  ultimately show "get xs s = Some c \<and> run xs c s d 4" by simp
next
  assume a: "get xs s = Some c \<and> run xs c s d 4"
  show "five_in_line xs c s d"
    unfolding five_in_line_iff
  proof (intro allI impI)
    fix k :: nat assume k: "k \<le> 4"
    show "get xs (s + int k * d) = Some c"
    proof (cases "k = 0")
      case True then show ?thesis using a by simp
    next
      case False
      then show ?thesis using a k unfolding run_def by simp
    qed
  qed
qed

lemma pdc_sound:
  assumes res: "point_direction_check_connect_gomoko b p d = Inr True"
    and col: "get (board b) p = Some c"
  shows "\<exists>j::nat. j \<le> 4 \<and> five_in_line (board b) c (p - int j * d) d"
proof -
  obtain c1 where l1: "connect_loop (board b) c p d 1 = Inr c1"
    using res col by (auto simp: point_direction_check_connect_gomoko_def split: sum.splits)
  have l2: "connect_loop (board b) c p (- d) c1 = Inr 5"
    using res col l1
    by (auto simp: point_direction_check_connect_gomoko_def split: sum.splits if_splits)
  have c1: "1 \<le> c1" "c1 \<le> 5" and fwd: "run (board b) c p d (c1 - 1)"
    using connect_loop_mono [OF l1] connect_loop_run [OF l1] by simp_all
  show ?thesis
  proof (cases "c1 = 5")
    case True
    then have "five_in_line (board b) c (p - int 0 * d) d"
      using fwd col by (simp add: five_in_line_run)
    then show ?thesis by blast
  next
    case False
    then have lt: "c1 < 5" using c1 by simp
    have bwd: "run (board b) c p (- d) (5 - c1)"
      using connect_loop_run [OF l2 lt] by simp
    define j where "j = 5 - c1"
    have j: "j \<le> 4" using c1 by (simp add: j_def)
    have "five_in_line (board b) c (p - int j * d) d"
      unfolding five_in_line_iff
    proof (intro allI impI)
      fix k :: nat assume k: "k \<le> 4"
      consider "k < j" | "k = j" | "j < k" by arith
      then show "get (board b) (p - int j * d + int k * d) = Some c"
      proof cases
        case 1
        then have "1 \<le> j - k \<and> j - k \<le> 5 - c1" unfolding j_def by arith
        then have "get (board b) (p + int (j - k) * (- d)) = Some c"
          using bwd unfolding run_def by blast
        moreover have "p - int j * d + int k * d = p + int (j - k) * (- d)"
          using 1 by (simp add: algebra_simps of_nat_diff)
        ultimately show ?thesis by (simp only:)
      next
        case 2
        then show ?thesis using col by simp
      next
        case 3
        then have "1 \<le> k - j \<and> k - j \<le> c1 - 1" using k lt unfolding j_def by arith
        then have "get (board b) (p + int (k - j) * d) = Some c"
          using fwd unfolding run_def by blast
        moreover have "p - int j * d + int k * d = p + int (k - j) * d"
          using 3 by (simp add: algebra_simps of_nat_diff)
        ultimately show ?thesis by (simp only:)
      qed
    qed
    then show ?thesis using j by blast
  qed
qed

lemma pdc_complete:
  assumes five: "five_in_line (board b) c s d"
    and before: "get (board b) (s - d) = Some v" "v \<noteq> c"
  shows "point_direction_check_connect_gomoko b s d = Inr True"
proof -
  have col: "get (board b) s = Some c" and fwd: "run (board b) c s d 4"
    using five by (simp_all add: five_in_line_run)
  have l1: "connect_loop (board b) c s d 1 = Inr 5"
    using connect_loop_complete [OF fwd, of 1] by simp
  have l2: "connect_loop (board b) c s (- d) 5 = Inr 5"
    using connect_loop_stop [of "board b" s "- d" v c 5] before by simp
  show ?thesis using col l1 l2 by (simp add: point_direction_check_connect_gomoko_def)
qed

lemma pdc_error:
  assumes wf: "wf_board b" and ob: "on_board (size b) p" and col: "get (board b) p = Some c"
    and c: "c \<noteq> BORDER" and d: "d \<in> set (axes b)"
    and err: "point_direction_check_connect_gomoko b p d = Inl e"
  shows "five_in_line (board b) c (p - d) d"
proof -
  obtain c1 where l1: "connect_loop (board b) c p d 1 = Inr c1"
    using connect_loop_total [OF wf c _ ob, of d 1] d by blast
  obtain c2 where l2: "connect_loop (board b) c p (- d) c1 = Inr c2"
    using connect_loop_total [OF wf c _ ob, of "- d" c1] d by auto
  have big: "5 < c2"
    using err col l1 l2
    by (auto simp: point_direction_check_connect_gomoko_def split: if_splits)
  have c1: "c1 \<le> 5" and fwd: "run (board b) c p d (c1 - 1)"
    using connect_loop_run [OF l1] by simp_all
  have "c1 = 5"
  proof (rule ccontr)
    assume "c1 \<noteq> 5"
    then have "c1 < 5" using c1 by simp
    then have "c2 \<le> 5" using connect_loop_run [OF l2] by simp
    then show False using big by simp
  qed
  then have prev: "get (board b) (p - d) = Some c" and fwd4: "run (board b) c p d 4"
    using connect_loop_mono [OF l2] big fwd by simp_all
  show ?thesis
    unfolding five_in_line_iff
  proof (intro allI impI)
    fix k :: nat assume k: "k \<le> 4"
    consider "k = 0" | "k = 1" | "2 \<le> k" by arith
    then show "get (board b) (p - d + int k * d) = Some c"
    proof cases
      case 1 then show ?thesis using prev by simp
    next
      case 2 then show ?thesis using col by simp
    next
      case 3
      then have "1 \<le> k - 1 \<and> k - 1 \<le> 4" using k by arith
      then have "get (board b) (p + int (k - 1) * d) = Some c"
        using fwd4 unfolding run_def by blast
      moreover have "p - d + int k * d = p + int (k - 1) * d"
        using 3 by (simp add: algebra_simps of_nat_diff)
      ultimately show ?thesis by (simp only:)
    qed
  qed
qed

lemma first_true_all_false:
  "(\<forall>x\<in>set xs. f x = Inr False) \<Longrightarrow> first_true f xs = Inr False"
  by (induction xs) simp_all

lemma first_true_hit:
  "(\<forall>x\<in>set pre. \<exists>r. f x = Inr r) \<Longrightarrow> f s = Inr True \<Longrightarrow> first_true f (pre @ s # post) = Inr True"
proof (induction pre)
  case Nil
  then show ?case by simp
next
  case (Cons a pre)
  then obtain r where "f a = Inr r" by auto
  then show ?case using Cons by (cases r) simp_all
qed

lemma first_true_True: "first_true f xs = Inr True \<Longrightarrow> \<exists>x\<in>set xs. f x = Inr True"
  by (induction xs) (auto split: sum.splits bool.splits)

lemma first_true_Inl: "first_true f xs = Inl e \<Longrightarrow> \<exists>x\<in>set xs. f x = Inl e"
  by (induction xs) (auto split: sum.splits bool.splits)

lemma first_true_ex:
  assumes "\<forall>x\<in>set xs. \<exists>r. f x = Inr r" and "\<exists>x\<in>set xs. f x = Inr True"
  shows "first_true f xs = Inr True"
proof -
  obtain x where x: "x \<in> set xs" "f x = Inr True" using assms(2) by blast
  obtain pre post where sp: "xs = pre @ x # post" using split_list [OF x(1)] by blast
  have "\<forall>y\<in>set pre. \<exists>r. f y = Inr r" using assms(1) sp by simp
  then show ?thesis using first_true_hit [of pre f x post] x(2) sp by simp
qed

lemma set_where1d_eq:
  "set (where1d_eq xs v) = {int i | i. i < length xs \<and> xs ! i = v}"
  by (auto simp: where1d_eq_def)

lemma sorted_where1d_eq: "sorted_wrt (<) (where1d_eq xs v)"
  unfolding where1d_eq_def
  by (simp add: sorted_wrt_map sorted_wrt_filter)

lemma where1d_eq_split:
  assumes "i < length xs" and "xs ! i = v"
  shows "\<exists>pre post. where1d_eq xs v = pre @ int i # post \<and> (\<forall>x\<in>set pre. x < int i)"
proof -
  have "int i \<in> set (where1d_eq xs v)" using assms by (auto simp: set_where1d_eq)
  then obtain pre post where sp: "where1d_eq xs v = pre @ int i # post"
    using split_list by fastforce
  have "sorted_wrt (<) (pre @ int i # post)" using sorted_where1d_eq [of xs v] sp by simp
  then have "\<forall>x\<in>set pre. x < int i" by (auto simp: sorted_wrt_append)
  then show ?thesis using sp by blast
qed

lemma stone_on_board:
  assumes wf: "wf_board b" and i: "i < length (board b)" and v: "board b ! i = c" and c: "c \<noteq> BORDER"
  shows "on_board (size b) (int i) \<and> get (board b) (int i) = Some c"
proof -
  have g: "get (board b) (int i) = Some c" using i v by (simp add: get_def norm_idx_def)
  have "\<not> get (board b) (int i) = Some BORDER" using g c by simp
  then have "on_board (size b) (int i)" using wf_border_iff [OF wf, of "int i"] i by simp
  then show ?thesis using g by simp
qed

lemma five_chain:
  assumes wf: "wf_board b" and ob: "on_board (size b) p" and d: "d \<in> set (axes b)"
    and c: "c \<noteq> BORDER" and five: "five_in_line (board b) c (p - int j * d) d" and j: "j \<le> 4"
  shows "i \<le> j \<Longrightarrow> on_board (size b) (p - int i * d)"
proof (induction i)
  case 0
  then show ?case using ob by simp
next
  case (Suc i)
  have prev: "on_board (size b) (p - int i * d)" using Suc by simp
  have "j - Suc i \<le> 4" using j by simp
  then have "get (board b) (p - int j * d + int (j - Suc i) * d) = Some c"
    using five unfolding five_in_line_iff by blast
  moreover have "p - int j * d + int (j - Suc i) * d = p - int i * d + (- d)"
    using Suc.prems by (simp add: algebra_simps of_nat_diff)
  ultimately have g: "get (board b) (p - int i * d + (- d)) = Some c" by (simp only:)
  have "on_board (size b) (p - int i * d + (- d))"
    using wf_step_on_board [OF wf prev _ g c] d by simp
  moreover have "p - int i * d + (- d) = p - int (Suc i) * d" by (simp add: algebra_simps)
  ultimately show ?case by (simp only:)
qed

lemma five_start_from_on_board:
  assumes wf: "wf_board b" and ob: "on_board (size b) q" and d: "d \<in> set (axes b)"
    and five: "five_in_line (board b) c q d"
  shows "five_start b c (nat q)"
proof -
  have "size b + 2 \<le> q" "q \<le> size b * size b + 2 * size b"
    using on_board_range [OF _ ob] wf by (simp_all add: wf_board_def)
  then have "0 \<le> q" "q < int (length (board b))"
    using wf wf_length [OF wf] by (simp_all add: wf_board_def)
  then show ?thesis using d five by (auto simp: five_start_def)
qed

lemma pc_True:
  assumes "point_check_game_end_gomoku b p = Inr True" and "get (board b) p = Some c"
  shows "\<exists>d\<in>set (axes b). \<exists>j::nat. j \<le> 4 \<and> five_in_line (board b) c (p - int j * d) d"
proof -
  obtain d where d: "d \<in> set (axes b)" "point_direction_check_connect_gomoko b p d = Inr True"
    using first_true_True assms(1) unfolding point_check_game_end_gomoku_def by blast
  show ?thesis using pdc_sound [OF d(2) assms(2)] d(1) by blast
qed

lemma pc_True_start:
  assumes wf: "wf_board b" and ob: "on_board (size b) p" and col: "get (board b) p = Some c"
    and c: "c \<noteq> BORDER" and res: "point_check_game_end_gomoku b p = Inr True"
  shows "\<exists>s. five_start b c s"
proof -
  obtain d j where d: "d \<in> set (axes b)" and j: "(j::nat) \<le> 4"
    and five: "five_in_line (board b) c (p - int j * d) d"
    using pc_True [OF res col] by blast
  have "on_board (size b) (p - int j * d)"
    using five_chain [OF wf ob d c five j, of j] by simp
  then show ?thesis using five_start_from_on_board [OF wf _ d five] by blast
qed

lemma pdc_Inl_start:
  assumes wf: "wf_board b" and ob: "on_board (size b) p" and col: "get (board b) p = Some c"
    and c: "c \<noteq> BORDER" and d: "d \<in> set (axes b)"
    and err: "point_direction_check_connect_gomoko b p d = Inl e"
  shows "\<exists>s. int s < p \<and> five_start b c s"
proof -
  have five: "five_in_line (board b) c (p - d) d" using pdc_error [OF wf ob col c d err] .
  then have g: "get (board b) (p + (- d)) = Some c" by (simp add: five_in_line_run)
  have ob': "on_board (size b) (p + (- d))"
    using wf_step_on_board [OF wf ob _ g c] d by simp
  have "five_start b c (nat (p - d))"
    using five_start_from_on_board [OF wf _ d five] ob' by simp
  moreover have "0 < d" using d wf by (auto simp: axes_def wf_board_def)
  moreover have "0 \<le> p - d" using wf_step_range [OF wf ob, of "- d"] d by simp
  ultimately show ?thesis by (intro exI [of _ "nat (p - d)"]) simp
qed

lemma pc_Inl_start:
  assumes wf: "wf_board b" and ob: "on_board (size b) p" and col: "get (board b) p = Some c"
    and c: "c \<noteq> BORDER" and err: "point_check_game_end_gomoku b p = Inl e"
  shows "\<exists>s. int s < p \<and> five_start b c s"
proof -
  obtain d where d: "d \<in> set (axes b)" "point_direction_check_connect_gomoko b p d = Inl e"
    using first_true_Inl err unfolding point_check_game_end_gomoku_def by blast
  show ?thesis using pdc_Inl_start [OF wf ob col c d] .
qed

lemma pc_at_least_start:
  assumes wf: "wf_board b" and c: "c \<noteq> BORDER" and st: "five_start b c s"
    and least: "\<forall>m<s. \<not> five_start b c m"
  shows "point_check_game_end_gomoku b (int s) = Inr True"
proof -
  obtain d where d: "d \<in> set (axes b)" and five: "five_in_line (board b) c (int s) d"
    and len: "s < length (board b)"
    using st by (auto simp: five_start_def)
  have col: "get (board b) (int s) = Some c" using five by (simp add: five_in_line_run)
  then have "board b ! s = c" using len by (simp add: get_def norm_idx_def)
  then have ob: "on_board (size b) (int s)" using stone_on_board [OF wf len _ c] by simp
  have noerr: "\<forall>x\<in>set (axes b). \<exists>r. point_direction_check_connect_gomoko b (int s) x = Inr r"
  proof
    fix x assume x: "x \<in> set (axes b)"
    show "\<exists>r. point_direction_check_connect_gomoko b (int s) x = Inr r"
    proof (cases "point_direction_check_connect_gomoko b (int s) x")
      case (Inl e)
      then show ?thesis using pdc_Inl_start [OF wf ob col c x Inl] least by auto
    next
      case (Inr r)
      then show ?thesis by simp
    qed
  qed
  obtain v where v: "get (board b) (int s - d) = Some v"
    using wf_step_readable [OF wf ob, of "- d"] d by auto
  have "v \<noteq> c"
  proof
    assume "v = c"
    then have g: "get (board b) (int s + (- d)) = Some c" using v by simp
    have ob': "on_board (size b) (int s + (- d))"
      using wf_step_on_board [OF wf ob _ g c] d by simp
    have "five_in_line (board b) c (int s - d) d"
      unfolding five_in_line_iff
    proof (intro allI impI)
      fix k :: nat assume k: "k \<le> 4"
      show "get (board b) (int s - d + int k * d) = Some c"
      proof (cases "k = 0")
        case True then show ?thesis using g by simp
      next
        case False
        then have "k - 1 \<le> 4" using k by simp
        then have "get (board b) (int s + int (k - 1) * d) = Some c"
          using five unfolding five_in_line_iff by blast
        moreover have "int s - d + int k * d = int s + int (k - 1) * d"
          using False by (simp add: algebra_simps of_nat_diff)
        ultimately show ?thesis by (simp only:)
      qed
    qed
    then have "five_start b c (nat (int s - d))"
      using five_start_from_on_board [OF wf _ d] ob' by simp
    moreover have "0 < d" using d wf by (auto simp: axes_def wf_board_def)
    moreover have "0 \<le> int s - d" using wf_step_range [OF wf ob, of "- d"] d by simp
    ultimately have "five_start b c (nat (int s - d)) \<and> nat (int s - d) < s" by simp
    then show False using least by blast
  qed
  then have "point_direction_check_connect_gomoko b (int s) d = Inr True"
    using pdc_complete [OF five v] by simp
  then show ?thesis
    unfolding point_check_game_end_gomoku_def
    using first_true_ex [OF noerr] d by blast
qed

lemma scan_color:
  assumes wf: "wf_board b" and c: "c \<noteq> BORDER"
  shows "first_true (point_check_game_end_gomoku b) (where1d_eq (board b) c)
           = Inr (\<exists>s. five_start b c s)"
proof (cases "\<exists>s. five_start b c s")
  case False
  have "\<forall>p\<in>set (where1d_eq (board b) c). point_check_game_end_gomoku b p = Inr False"
  proof
    fix p assume "p \<in> set (where1d_eq (board b) c)"
    then obtain i where i: "p = int i" "i < length (board b)" "board b ! i = c"
      by (auto simp: set_where1d_eq)
    have ob: "on_board (size b) p" and col: "get (board b) p = Some c"
      using stone_on_board [OF wf i(2,3) c] i(1) by simp_all
    show "point_check_game_end_gomoku b p = Inr False"
    proof (cases "point_check_game_end_gomoku b p")
      case (Inl e)
      then show ?thesis using pc_Inl_start [OF wf ob col c Inl] False by blast
    next
      case (Inr r)
      then show ?thesis using pc_True_start [OF wf ob col c] False by (cases r) auto
    qed
  qed
  then show ?thesis using first_true_all_false False by simp
next
  case True
  then obtain s where st: "five_start b c s" and least: "\<forall>m<s. \<not> five_start b c m"
    using exists_least_iff [of "five_start b c"] by blast
  have len: "s < length (board b)" and col: "get (board b) (int s) = Some c"
    using st by (auto simp: five_start_def five_in_line_run)
  then have cell: "board b ! s = c" by (simp add: get_def norm_idx_def)
  obtain pre post where sp: "where1d_eq (board b) c = pre @ int s # post"
    and pre: "\<forall>x\<in>set pre. x < int s"
    using where1d_eq_split [OF len cell] by blast
  have ok: "\<forall>x\<in>set pre. \<exists>r. point_check_game_end_gomoku b x = Inr r"
  proof
    fix x assume x: "x \<in> set pre"
    then have "x \<in> set (where1d_eq (board b) c)" using sp by simp
    then obtain i where i: "x = int i" "i < length (board b)" "board b ! i = c"
      by (auto simp: set_where1d_eq)
    have ob: "on_board (size b) x" and colx: "get (board b) x = Some c"
      using stone_on_board [OF wf i(2,3) c] i(1) by simp_all
    show "\<exists>r. point_check_game_end_gomoku b x = Inr r"
    proof (cases "point_check_game_end_gomoku b x")
      case (Inl e)
      obtain m where "int m < x" "five_start b c m"
        using pc_Inl_start [OF wf ob colx c Inl] by blast
      then show ?thesis using least pre x by force
    next
      case (Inr r)
      then show ?thesis by simp
    qed
  qed
  have "first_true (point_check_game_end_gomoku b) (pre @ int s # post) = Inr True"
    using first_true_hit [OF ok pc_at_least_start [OF wf c st least]] .
  then show ?thesis using sp True by simp
qed

lemma five_of_iff:
  assumes wf: "wf_board b" and c: "is_black_white c"
  shows "five_of b c = (\<exists>s. five_start b c s)"
proof
  assume "five_of b c"
  then obtain i where i: "i < length (board b)" and sf: "stone_on_five b c (int i)"
    by (auto simp: five_of_def list_ex_iff)
  have col: "get (board b) (int i) = Some c" using sf by (simp add: stone_on_five_def)
  have cb: "c \<noteq> BORDER" using c by auto
  have "board b ! i = c" using col i by (simp add: get_def norm_idx_def)
  then have ob: "on_board (size b) (int i)" using stone_on_board [OF wf i _ cb] by simp
  have "\<exists>d\<in>set (axes b). \<exists>j\<in>set [0, 1, 2, 3, 4::int]. five_in_line (board b) c (int i - j * d) d"
    using sf by (simp only: stone_on_five_def list_ex_iff)
  then obtain d j where d: "d \<in> set (axes b)" and j: "j \<in> set [0, 1, 2, 3, 4::int]"
    and five: "five_in_line (board b) c (int i - j * d) d"
    by blast
  have jn: "nat j \<le> 4" "int (nat j) = j" using j by auto
  have five': "five_in_line (board b) c (int i - int (nat j) * d) d" using five jn by simp
  have "on_board (size b) (int i - int (nat j) * d)"
    using five_chain [OF wf ob d cb five' jn(1), of "nat j"] by simp
  then show "\<exists>s. five_start b c s" using five_start_from_on_board [OF wf _ d five'] by blast
next
  assume "\<exists>s. five_start b c s"
  then obtain s d where len: "s < length (board b)" and d: "d \<in> set (axes b)"
    and five: "five_in_line (board b) c (int s) d"
    by (auto simp: five_start_def)
  have "get (board b) (int s) = Some c" using five by (simp add: five_in_line_run)
  moreover have "five_in_line (board b) c (int s - 0 * d) d" using five by simp
  ultimately have "stone_on_five b c (int s)"
    using c d unfolding stone_on_five_def list_ex_iff by (intro conjI bexI [of _ d] bexI [of _ 0]) simp_all
  then show "five_of b c" using len by (auto simp: five_of_def list_ex_iff)
qed

lemma check_game_end_gomoku_eq:
  assumes "wf_board b"
  shows "check_game_end_gomoku b =
           Inr (if five_of b WHITE then (True, Some WHITE)
                else if five_of b BLACK then (True, Some BLACK) else (False, None))"
proof -
  have w: "first_true (point_check_game_end_gomoku b) (where1d_eq (board b) WHITE)
             = Inr (five_of b WHITE)"
    using scan_color [OF assms, of WHITE] five_of_iff [OF assms, of WHITE] by simp
  have k: "first_true (point_check_game_end_gomoku b) (where1d_eq (board b) BLACK)
             = Inr (five_of b BLACK)"
    using scan_color [OF assms, of BLACK] five_of_iff [OF assms, of BLACK] by simp
  show ?thesis
    unfolding check_game_end_gomoku_def w k
    by (cases "five_of b WHITE"; cases "five_of b BLACK") simp_all
qed

text \<open>
  C1. On every board laid out as \<^verbatim>\<open>reset\<close> lays it out, \<^verbatim>\<open>check_game_end_gomoku\<close>
  returns (no assertion fails, no read leaves the array), its first component is True
  exactly when some WHITE or BLACK stone lies on five consecutive cells of its own colour
  along one of the four axes, and its second component is then the colour of such a
  five (WHITE when both colours have one), and None otherwise. A longer run contains a
  five and is reported as well: the count stops at 5 on the first stone of the run.
\<close>

theorem check_game_end_gomoku_correct:
  assumes "wf_board b"
  shows "check_game_end_gomoku b =
           Inr (five_of b WHITE \<or> five_of b BLACK,
                if five_of b WHITE then Some WHITE
                else if five_of b BLACK then Some BLACK else None)"
  using check_game_end_gomoku_eq [OF assms] by simp

theorem check_game_end_gomoku_correct_witness:
  "wf_board white_five_board \<and> five_of white_five_board WHITE \<and>
   check_game_end_gomoku white_five_board = Inr (True, Some WHITE)"
proof -
  have h: "wf_board white_five_board" by code_simp
  have f: "five_of white_five_board WHITE" by code_simp
  show ?thesis using check_game_end_gomoku_correct [OF h] h f by simp
qed

section \<open>What the open-four scan returns\<close>

lemma straight_loop_total:
  assumes wf: "wf_board b"
  shows "c \<noteq> BORDER \<Longrightarrow> d \<in> set (axes b) \<or> - d \<in> set (axes b) \<Longrightarrow> on_board (size b) p
         \<Longrightarrow> \<exists>r. straight_loop (board b) c p d k e = Inr r"
proof (induction "board b" c p d k e rule: straight_loop.induct)
  case (1 color p d count emp_cell)
  obtain v where v: "get (board b) (p + d) = Some v"
    using wf_step_readable [OF wf "1.prems"(3,2)] by blast
  have d0: "d \<noteq> 0" using axes_nonzero [OF wf "1.prems"(2)] .
  show ?case
  proof (cases "v = color")
    case True
    have ob: "on_board (size b) (p + d)"
      using wf_step_on_board [OF wf "1.prems"(3,2)] v True "1.prems"(1) by simp
    have "\<exists>r. straight_loop (board b) color (p + d) d (count + 1) emp_cell = Inr r"
      using "1.hyps" [OF v True d0 "1.prems"(1,2) ob] .
    then show ?thesis
      using v True d0 by (subst straight_loop.simps) simp
  next
    case False
    then show ?thesis using v by (subst straight_loop.simps) auto
  qed
qed

lemma straight_loop_spec:
  "straight_loop xs c p d k e = Inr (k', e') \<Longrightarrow>
     \<exists>i v. run xs c p d i \<and> get xs (p + int (Suc i) * d) = Some v \<and> v \<noteq> c \<and>
           k' = k + i \<and> e' = (if v = EMPTY then e + 1 else e)"
proof (induction xs c p d k e rule: straight_loop.induct)
  case (1 xs color p d count emp_cell)
  show ?case
  proof (cases "get xs (p + d)")
    case None
    then show ?thesis using "1.prems" by (subst (asm) straight_loop.simps) simp
  next
    case (Some v)
    show ?thesis
    proof (cases "v = color")
      case False
      then have "k' = count \<and> e' = (if v = EMPTY then emp_cell + 1 else emp_cell)"
        using "1.prems" Some by (subst (asm) straight_loop.simps) auto
      then show ?thesis using Some False by (intro exI [of _ 0] exI [of _ v]) (simp add: run_0)
    next
      case True
      have d0: "d \<noteq> 0"
        using "1.prems" Some True by (subst (asm) straight_loop.simps) (auto split: if_splits)
      have rec: "straight_loop xs color (p + d) d (count + 1) emp_cell = Inr (k', e')"
        using "1.prems" Some True by (subst (asm) straight_loop.simps) (auto split: if_splits)
      obtain i w where i: "run xs color (p + d) d i" "get xs (p + d + int (Suc i) * d) = Some w"
        "w \<noteq> color" "k' = count + 1 + i" "e' = (if w = EMPTY then emp_cell + 1 else emp_cell)"
        using "1.IH" [OF Some True d0 rec] by blast
      have "run xs color p d (Suc i)" using i(1) Some True by (simp add: run_Suc_front)
      moreover have "p + int (Suc (Suc i)) * d = p + d + int (Suc i) * d" by (simp add: algebra_simps)
      then have "get xs (p + int (Suc (Suc i)) * d) = Some w" using i(2) by (simp only:)
      ultimately show ?thesis using i(3,4,5) by (intro exI [of _ "Suc i"] exI [of _ w]) simp
    qed
  qed
qed

lemma run_end_unique:
  assumes "run xs c p d i" and "get xs (p + int (Suc i) * d) = Some v" and "v \<noteq> c"
    and "run xs c p d j" and "get xs (p + int (Suc j) * d) = Some w" and "w \<noteq> c"
  shows "i = j"
proof (rule ccontr)
  assume "i \<noteq> j"
  then consider "i < j" | "j < i" by arith
  then show False
  proof cases
    case 1
    then have "get xs (p + int (Suc i) * d) = Some c"
      using assms(4) [unfolded run_def, rule_format, of "Suc i"] by simp
    then show False using assms(2,3) by simp
  next
    case 2
    then have "get xs (p + int (Suc j) * d) = Some c"
      using assms(1) [unfolded run_def, rule_format, of "Suc j"] by simp
    then show False using assms(5,6) by simp
  qed
qed

lemma run_to_empty_iff:
  "run_to_empty xs c p d i = (run xs c p d i \<and> get xs (p + int (Suc i) * d) = Some EMPTY)"
  by (auto simp: run_to_empty_def run_def list_all_iff)

lemma run_on_board:
  assumes wf: "wf_board b" and ob: "on_board (size b) p" and d: "d \<in> set (axes b) \<or> - d \<in> set (axes b)"
    and c: "c \<noteq> BORDER" and r: "run (board b) c p d i"
  shows "k \<le> i \<Longrightarrow> on_board (size b) (p + int k * d)"
proof (induction k)
  case 0
  then show ?case using ob by simp
next
  case (Suc k)
  have prev: "on_board (size b) (p + int k * d)" using Suc by simp
  have "get (board b) (p + int (Suc k) * d) = Some c"
    using r [unfolded run_def, rule_format, of "Suc k"] Suc.prems by simp
  moreover have "p + int (Suc k) * d = p + int k * d + d" by (simp add: algebra_simps)
  ultimately have g: "get (board b) (p + int k * d + d) = Some c" by (simp only:)
  have "on_board (size b) (p + int k * d + d)"
    using wf_step_on_board [OF wf prev d g c] .
  moreover have "p + int k * d + d = p + int (Suc k) * d" by (simp add: algebra_simps)
  ultimately show ?case by (simp only:)
qed

lemma run_length_bound:
  assumes wf: "wf_board b" and ob: "on_board (size b) p" and d: "d \<in> set (axes b) \<or> - d \<in> set (axes b)"
    and c: "c \<noteq> BORDER" and r: "run (board b) c p d i"
  shows "i < length (board b)"
proof -
  have obi: "on_board (size b) (p + int i * d)" using run_on_board [OF wf ob d c r, of i] by simp
  have sz: "2 \<le> size b" using wf by (simp add: wf_board_def)
  have rp: "0 \<le> p" "p < int (length (board b))"
    using on_board_range [OF sz ob] wf_length [OF wf] sz by simp_all
  have ri: "0 \<le> p + int i * d" "p + int i * d < int (length (board b))"
    using on_board_range [OF sz obi] wf_length [OF wf] sz by simp_all
  have "1 \<le> d \<or> d \<le> - 1" using axes_nonzero [OF wf d] by arith
  then show ?thesis
  proof
    assume "1 \<le> d"
    then have "int i * 1 \<le> int i * d" by (intro mult_left_mono) simp_all
    then show ?thesis using ri rp by simp
  next
    assume "d \<le> - 1"
    then have "int i * d \<le> int i * (- 1)" by (intro mult_left_mono) simp_all
    then show ?thesis using ri rp by simp
  qed
qed

lemma first_true_pure:
  "(\<forall>x\<in>set xs. f x = Inr (P x)) \<Longrightarrow> first_true f xs = Inr (list_ex P xs)"
  by (induction xs) (auto split: bool.splits)

lemma filter_err_pure:
  "(\<forall>x\<in>set xs. f x = Inr (P x)) \<Longrightarrow> filter_err f xs = Inr (filter P xs)"
  by (induction xs) (simp_all add: bind_err_def)

lemma straight_check_open:
  assumes wf: "wf_board b" and c: "is_black_white c" and ob: "on_board (size b) p"
    and d: "d \<in> set (axes b)"
  shows "\<exists>r. straight_check b p d c 4 False True = Inr r \<and> truthy r = open_line b c p d"
proof -
  have cb: "c \<noteq> BORDER" and ce: "c \<noteq> EMPTY" using c by auto
  have dd: "d \<in> set (axes b) \<or> - d \<in> set (axes b)"
    and dm: "- d \<in> set (axes b) \<or> - (- d) \<in> set (axes b)" using d by simp_all
  obtain k1 e1 where l1: "straight_loop (board b) c p d 1 0 = Inr (k1, e1)"
    using straight_loop_total [OF wf cb dd ob, of 1 0] by force
  obtain k2 e2 where l2: "straight_loop (board b) c p (- d) k1 e1 = Inr (k2, e2)"
    using straight_loop_total [OF wf cb dm ob, of k1 e1] by force
  obtain i v where i: "run (board b) c p d i" "get (board b) (p + int (Suc i) * d) = Some v"
    "v \<noteq> c" "k1 = 1 + i" "e1 = (if v = EMPTY then 0 + 1 else 0)"
    using straight_loop_spec [OF l1] by blast
  obtain j w where j: "run (board b) c p (- d) j" "get (board b) (p + int (Suc j) * (- d)) = Some w"
    "w \<noteq> c" "k2 = k1 + j" "e2 = (if w = EMPTY then e1 + 1 else e1)"
    using straight_loop_spec [OF l2] by blast
  have res: "straight_check b p d c 4 False True = Inr (final_check False True 4 e2 k2)"
    using l1 l2 by (simp add: straight_check_def bind_err_def)
  have t: "truthy (final_check False True 4 e2 k2) = (4 \<le> i + j + 1 \<and> v = EMPTY \<and> w = EMPTY)"
    using i(4,5) j(4,5) by (auto simp: truthy_def final_check_def)
  have ib: "i < length (board b)" using run_length_bound [OF wf ob dd cb i(1)] .
  have jb: "j < length (board b)" using run_length_bound [OF wf ob dm cb j(1)] .
  have "open_line b c p d = (4 \<le> i + j + 1 \<and> v = EMPTY \<and> w = EMPTY)"
  proof
    assume "open_line b c p d"
    then obtain i' j' where o: "4 \<le> i' + j' + 1" "run_to_empty (board b) c p d i'"
      "run_to_empty (board b) c p (- d) j'"
      by (auto simp: open_line_def list_ex_iff)
    have ri: "run (board b) c p d i'" "get (board b) (p + int (Suc i') * d) = Some EMPTY"
      using o(2) by (simp_all add: run_to_empty_iff)
    have rj: "run (board b) c p (- d) j'" "get (board b) (p + int (Suc j') * (- d)) = Some EMPTY"
      using o(3) by (simp_all add: run_to_empty_iff)
    have "i' = i" using run_end_unique [OF ri(1,2) _ i(1,2,3)] ce by simp
    moreover have "j' = j" using run_end_unique [OF rj(1,2) _ j(1,2,3)] ce by simp
    ultimately show "4 \<le> i + j + 1 \<and> v = EMPTY \<and> w = EMPTY"
      using o(1) ri(2) rj(2) i(2) j(2) by simp
  next
    assume a: "4 \<le> i + j + 1 \<and> v = EMPTY \<and> w = EMPTY"
    then have "run_to_empty (board b) c p d i" "run_to_empty (board b) c p (- d) j"
      using i(1,2) j(1,2) by (simp_all add: run_to_empty_iff)
    then show "open_line b c p d"
      using a ib jb unfolding open_line_def list_ex_iff
      by (intro bexI [of _ i] bexI [of _ j]) simp_all
  qed
  then show ?thesis using res t by simp
qed

lemma any_axis_open:
  assumes wf: "wf_board b" and c: "is_black_white c" and ob: "on_board (size b) p"
  shows "any_axis b p c 4 False True = Inr (open_four_point b c p)"
proof -
  have "\<forall>d\<in>set (axes b).
          bind_err (straight_check b p d c 4 False True) (\<lambda>r. Inr (truthy r))
            = Inr (open_line b c p d)"
  proof
    fix d assume d: "d \<in> set (axes b)"
    obtain r where "straight_check b p d c 4 False True = Inr r" "truthy r = open_line b c p d"
      using straight_check_open [OF wf c ob d] by blast
    then show "bind_err (straight_check b p d c 4 False True) (\<lambda>r. Inr (truthy r))
                 = Inr (open_line b c p d)"
      by (simp add: bind_err_def)
  qed
  then show ?thesis
    unfolding any_axis_def open_four_point_def by (rule first_true_pure)
qed

text \<open>
  C5, as stated, fails on the pattern it names. With BLACK on columns 2 to 4 of row 1
  of an otherwise empty 7 x 7 board, columns 1 and 5 (indices 9 and 13) are both empty
  and each would make a line of four with an empty cell at one end at least, but
  \<^verbatim>\<open>open_four\<close> returns column 5 only: the cell before column 1 is the border.
\<close>

theorem open_four_edge_counterexample:
  "get (board three_row_board) 9 = Some EMPTY \<and> get (board three_row_board) 13 = Some EMPTY \<and>
   open_four three_row_board BLACK = Inr [13]"
  by code_simp

text \<open>
  C5, amended. For a colour BLACK or WHITE, \<^verbatim>\<open>open_four\<close> returns, in ascending
  order, exactly the empty points which, once filled, lie along one of the four axes in
  a line of at least four stones of the colour with an EMPTY cell after both of its ends.
\<close>

theorem open_four_characterised:
  assumes wf: "wf_board b" and c: "is_black_white c"
  shows "open_four b c = Inr (filter (open_four_point b c) (where1d_eq (board b) EMPTY))"
proof -
  have "\<forall>p\<in>set (where1d_eq (board b) EMPTY).
          any_axis b p c 4 False True = Inr (open_four_point b c p)"
  proof
    fix p assume "p \<in> set (where1d_eq (board b) EMPTY)"
    then obtain i where i: "p = int i" "i < length (board b)" "board b ! i = EMPTY"
      by (auto simp: set_where1d_eq)
    have "on_board (size b) p" using stone_on_board [OF wf i(2,3)] i(1) by simp
    then show "any_axis b p c 4 False True = Inr (open_four_point b c p)"
      using any_axis_open [OF wf c] by simp
  qed
  then show ?thesis unfolding open_four_def by (rule filter_err_pure)
qed

theorem open_four_characterised_witness:
  "wf_board three_row_board \<and> is_black_white BLACK \<and>
   filter (open_four_point three_row_board BLACK) (where1d_eq (board three_row_board) EMPTY) = [13]"
proof -
  have h: "wf_board three_row_board" by code_simp
  have c: "is_black_white BLACK" by simp
  have ev: "open_four three_row_board BLACK = Inr [13]" by code_simp
  show ?thesis using open_four_characterised [OF h c] h ev by simp
qed

section \<open>The move ordering changes the liberty cache only\<close>

lemma only_liberty_iff: "only_liberty b b' = (\<exists>lo. b' = b\<lparr>liberty_of := lo\<rparr>)"
proof
  assume "only_liberty b b'"
  then have "b' = b\<lparr>liberty_of := liberty_of b'\<rparr>" by (simp only: only_liberty_def)
  then show "\<exists>lo. b' = b\<lparr>liberty_of := lo\<rparr>" by (rule exI)
next
  assume "\<exists>lo. b' = b\<lparr>liberty_of := lo\<rparr>"
  then obtain lo where "b' = b\<lparr>liberty_of := lo\<rparr>" by (rule exE)
  then show "only_liberty b b'" by (simp add: only_liberty_def)
qed

lemma only_liberty_refl: "only_liberty b b"
  by (simp add: only_liberty_def)

lemma only_liberty_upd: "only_liberty b (b\<lparr>liberty_of := lo\<rparr>)"
  by (simp add: only_liberty_def)

lemma only_liberty_trans:
  assumes "only_liberty a b" and "only_liberty b c"
  shows "only_liberty a c"
proof -
  obtain l1 where b: "b = a\<lparr>liberty_of := l1\<rparr>" using assms(1) only_liberty_iff by blast
  obtain l2 where c: "c = b\<lparr>liberty_of := l2\<rparr>" using assms(2) only_liberty_iff by blast
  have "c = a\<lparr>liberty_of := l2\<rparr>" unfolding c b by simp
  then show ?thesis using only_liberty_iff by blast
qed

lemma only_liberty_board:
  assumes "only_liberty b b'"
  shows "board b' = board b \<and> current_player b' = current_player b"
proof -
  obtain lo where "b' = b\<lparr>liberty_of := lo\<rparr>" using assms only_liberty_iff by blast
  then show ?thesis by simp
qed

lemma has_liberty_frame: "has_liberty b block = Inr (h, b') \<Longrightarrow> only_liberty b b'"
  by (auto simp: has_liberty_def bind_err_def only_liberty_refl only_liberty_upd
      split: sum.splits option.splits if_splits)

lemma detect_capture_frame: "detect_capture b nb = Inr (r, b') \<Longrightarrow> only_liberty b b'"
  by (auto simp: detect_capture_def bind_err_def only_liberty_refl
      split: sum.splits if_splits dest: has_liberty_frame)

lemma detect_captures_loop_frame:
  "detect_captures_loop b nbs = Inr (r, b') \<Longrightarrow> only_liberty b b'"
proof (induction nbs arbitrary: b)
  case Nil
  then show ?case by (simp add: only_liberty_refl)
next
  case (Cons nb nbs)
  then obtain c b1 where dc: "detect_capture b nb = Inr (c, b1)"
    by (auto split: sum.splits)
  have f1: "only_liberty b b1" using detect_capture_frame [OF dc] .
  show ?case
  proof (cases c)
    case True
    then show ?thesis using Cons.prems dc f1 by simp
  next
    case False
    then have "detect_captures_loop b1 nbs = Inr (r, b')" using Cons.prems dc by simp
    then show ?thesis using Cons.IH f1 only_liberty_trans by blast
  qed
qed

lemma detect_captures_frame: "detect_captures b p c = Inr (r, b') \<Longrightarrow> only_liberty b b'"
  by (auto simp: detect_captures_def bind_err_def split: sum.splits dest: detect_captures_loop_frame)

lemma suicide_test_frame: "suicide_test b p hc = Inr (r, b') \<Longrightarrow> only_liberty b b'"
  by (auto simp: suicide_test_def bind_err_def only_liberty_refl
      split: sum.splits if_splits dest: has_liberty_frame)

lemma is_legal_frame:
  assumes "is_legal b p c = Inr (r, b')"
  shows "only_liberty b b'"
proof (cases "get (board b) p")
  case None
  then show ?thesis using assms by (auto simp: is_legal_def split: if_splits)
next
  case (Some v)
  show ?thesis
  proof (cases "v \<noteq> EMPTY \<or> ko_recapture b = Some p")
    case True
    then have "b' = b" using assms Some by (auto simp: is_legal_def split: if_splits)
    then show ?thesis by (simp add: only_liberty_refl)
  next
    case False
    then have v: "get (board b) p = Some EMPTY" using Some by simp
    have cw: "is_black_white c" using assms by (auto simp: is_legal_def split: if_splits)
    obtain xs where xs: "put (board b) p c = Some xs"
      using get_Some_put [OF v] by blast
    obtain hc b2 where d: "detect_captures (b\<lparr>board := xs\<rparr>) p (opponent c) = Inr (hc, b2)"
      using assms v False cw xs by (auto simp: is_legal_def bind_err_def split: sum.splits)
    obtain legal b3 where s: "suicide_test b2 p hc = Inr (legal, b3)"
      using assms v False cw xs d by (auto simp: is_legal_def bind_err_def split: sum.splits)
    obtain ys where ys: "put (board b3) p EMPTY = Some ys" and res: "b' = b3\<lparr>board := ys\<rparr>"
      using assms v False cw xs d s
      by (auto simp: is_legal_def bind_err_def split: sum.splits option.splits)
    have "only_liberty (b\<lparr>board := xs\<rparr>) b3"
      using only_liberty_trans [OF detect_captures_frame [OF d] suicide_test_frame [OF s]] .
    then obtain lo where b3: "b3 = b\<lparr>board := xs, liberty_of := lo\<rparr>"
      using only_liberty_iff by blast
    then have "board b3 = xs" by simp
    then have "ys = board b" using put_restore [OF v xs] ys by simp
    then have "b' = b\<lparr>liberty_of := lo\<rparr>" unfolding res b3 by simp
    then show ?thesis using only_liberty_iff by blast
  qed
qed

lemma dc_forward_frame:
  "dc_forward b color point p d count mx = Inr ((n, pw), b') \<Longrightarrow> only_liberty b b'"
proof (induction b color point p d count mx rule: dc_forward.induct)
  case (1 b color point p d count mx)
  show ?case
  proof (cases "get (board b) (p + d)")
    case None
    then show ?thesis using "1.prems" by (subst (asm) dc_forward.simps) simp
  next
    case (Some v)
    show ?thesis
    proof (cases "v = color")
      case False
      then have "b' = b" using "1.prems" Some by (subst (asm) dc_forward.simps) simp
      then show ?thesis by (simp add: only_liberty_refl)
    next
      case True
      show ?thesis
      proof (cases "count + 1 = mx")
        case stop: True
        obtain r1 b1 where l1: "is_legal b (p + d + d) color = Inr (r1, b1)"
          using "1.prems" Some True stop
          by (subst (asm) dc_forward.simps) (auto split: sum.splits)
        have f1: "only_liberty b b1" using is_legal_frame [OF l1] .
        show ?thesis
        proof (cases r1)
          case True
          then have "b' = b1" using "1.prems" Some \<open>v = color\<close> stop l1
            by (subst (asm) dc_forward.simps) simp
          then show ?thesis using f1 by simp
        next
          case False
          obtain r2 b2 where l2: "is_legal b1 (point + (- d)) color = Inr (r2, b2)"
            using "1.prems" Some \<open>v = color\<close> stop l1 False
            by (subst (asm) dc_forward.simps) (auto split: sum.splits)
          have "b' = b2" using "1.prems" Some \<open>v = color\<close> stop l1 False l2
            by (subst (asm) dc_forward.simps) (auto split: bool.splits)
          then show ?thesis using only_liberty_trans [OF f1 is_legal_frame [OF l2]] by simp
        qed
      next
        case go: False
        have nd: "\<not> (d = 0 \<and> mx < count + 1)"
          using "1.prems" Some True go by (subst (asm) dc_forward.simps) (auto split: if_splits)
        have "dc_forward b color point (p + d) d (count + 1) mx = Inr ((n, pw), b')"
          using "1.prems" Some True go nd by (subst (asm) dc_forward.simps) (auto split: if_splits)
        then show ?thesis using "1.IH" [OF Some True go nd] by simp
      qed
    qed
  qed
qed

lemma dc_backward_frame:
  "dc_backward b color p d count mx pw0 = Inr ((n, pw), b') \<Longrightarrow> only_liberty b b'"
proof (induction b color p d count mx pw0 rule: dc_backward.induct)
  case (1 b color p d count mx pw0)
  show ?case
  proof (cases "get (board b) (p + d)")
    case None
    then show ?thesis using "1.prems" by (subst (asm) dc_backward.simps) simp
  next
    case (Some v)
    show ?thesis
    proof (cases "v = color")
      case False
      then have "b' = b" using "1.prems" Some by (subst (asm) dc_backward.simps) simp
      then show ?thesis by (simp add: only_liberty_refl)
    next
      case True
      show ?thesis
      proof (cases "count + 1 = mx")
        case stop: True
        obtain r1 b1 where l1: "is_legal b (p + d + d) color = Inr (r1, b1)"
          using "1.prems" Some True stop
          by (subst (asm) dc_backward.simps) (auto split: sum.splits)
        have "b' = b1" using "1.prems" Some True stop l1
          by (subst (asm) dc_backward.simps) (auto split: bool.splits)
        then show ?thesis using is_legal_frame [OF l1] by simp
      next
        case go: False
        have nd: "\<not> (d = 0 \<and> mx < count + 1)"
          using "1.prems" Some True go by (subst (asm) dc_backward.simps) (auto split: if_splits)
        have "dc_backward b color (p + d) d (count + 1) mx pw0 = Inr ((n, pw), b')"
          using "1.prems" Some True go nd by (subst (asm) dc_backward.simps) (auto split: if_splits)
        then show ?thesis using "1.IH" [OF Some True go nd] by simp
      qed
    qed
  qed
qed

lemma direction_check_frame:
  assumes "direction_check_connect_gomoko b point shift mx = Inr (r, b')"
  shows "only_liberty b b'"
proof -
  obtain color where c: "get (board b) point = Some color"
    using assms by (auto simp: direction_check_connect_gomoko_def split: option.splits)
  obtain n1 pw1 b1 where f: "dc_forward b color point point shift 1 mx = Inr ((n1, pw1), b1)"
    using assms c by (auto simp: direction_check_connect_gomoko_def bind_err_def split: sum.splits)
  obtain n2 pw2 where k: "dc_backward b1 color point (- shift) n1 mx pw1 = Inr ((n2, pw2), b')"
    using assms c f by (auto simp: direction_check_connect_gomoko_def bind_err_def split: sum.splits)
  show ?thesis using only_liberty_trans [OF dc_forward_frame [OF f] dc_backward_frame [OF k]] .
qed

lemma check_n_axes_frame:
  "check_n_axes b point mx ds acc = Inr (r, b') \<Longrightarrow> only_liberty b b'"
proof (induction ds arbitrary: b acc)
  case Nil
  then show ?case by (simp add: only_liberty_refl)
next
  case (Cons d ds)
  obtain chk pw b1 where dc: "direction_check_connect_gomoko b point d mx = Inr ((chk, pw), b1)"
    using Cons.prems by (auto split: sum.splits)
  have "check_n_axes b1 point mx ds (if chk then acc @ pw else acc) = Inr (r, b')"
    using Cons.prems dc by simp
  then show ?case using Cons.IH direction_check_frame [OF dc] only_liberty_trans by blast
qed

lemma check_n_frame: "check_n sl b point mx = Inr (r, b') \<Longrightarrow> only_liberty b b'"
  by (auto simp: check_n_def bind_err_def split: sum.splits dest: check_n_axes_frame)

lemma bucket_frame: "bucket sl b mx points final = Inr (r, b') \<Longrightarrow> only_liberty b b'"
proof (induction points arbitrary: b final)
  case Nil
  then show ?case by (simp add: only_liberty_refl)
next
  case (Cons point points)
  obtain r1 b1 where c1: "check_n sl b point mx = Inr (r1, b1)"
    using Cons.prems by (auto split: sum.splits)
  have f1: "only_liberty b b1" using check_n_frame [OF c1] .
  show ?case
  proof (cases r1)
    case None
    then have "bucket sl b1 mx points final = Inr (r, b')" using Cons.prems c1 by simp
    then show ?thesis using Cons.IH f1 only_liberty_trans by blast
  next
    case (Some l1)
    obtain r2 b2 where c2: "check_n sl b1 point mx = Inr (r2, b2)"
      using Cons.prems c1 Some by (auto split: sum.splits)
    have f2: "only_liberty b b2" using only_liberty_trans [OF f1 check_n_frame [OF c2]] .
    obtain l2 where r2: "r2 = Some l2"
      using Cons.prems c1 Some c2 by (cases r2) auto
    have "bucket sl b2 mx points (final @ filter (\<lambda>x. x \<notin> set final) l2) = Inr (r, b')"
      using Cons.prems c1 Some c2 r2 by simp
    then show ?thesis using Cons.IH f2 only_liberty_trans by blast
  qed
qed

lemma order_the_point_frame:
  assumes "order_the_point sl b color = Inr (moves, b')"
  shows "only_liberty b b'"
proof -
  define points where "points = (if color = WHITE then where1d_eq (board b) WHITE
                                 else where1d_eq (board b) BLACK)"
  obtain f4 b1 where k4: "bucket sl b 4 points [] = Inr (f4, b1)"
    using assms unfolding order_the_point_def points_def [symmetric]
    by (auto simp: Let_def bind_err_def split: sum.splits)
  obtain f3 b2 where k3: "bucket sl b1 3 points [] = Inr (f3, b2)"
    using assms k4 unfolding order_the_point_def points_def [symmetric]
    by (auto simp: Let_def bind_err_def split: sum.splits)
  obtain f2 b3 where k2: "bucket sl b2 2 points [] = Inr (f2, b3)"
    using assms k4 k3 unfolding order_the_point_def points_def [symmetric]
    by (auto simp: Let_def bind_err_def split: sum.splits)
  obtain f1 b4 where k1: "bucket sl b3 1 points [] = Inr (f1, b4)"
    using assms k4 k3 k2 unfolding order_the_point_def points_def [symmetric]
    by (auto simp: Let_def bind_err_def split: sum.splits)
  have "b' = b4"
    using assms k4 k3 k2 k1 unfolding order_the_point_def points_def [symmetric]
    by (simp add: Let_def bind_err_def)
  then show ?thesis
    using only_liberty_trans [OF only_liberty_trans [OF only_liberty_trans
          [OF bucket_frame [OF k4] bucket_frame [OF k3]] bucket_frame [OF k2]] bucket_frame [OF k1]]
    by simp
qed

text \<open>
  C10. \<^verbatim>\<open>check_game_end_gomoku\<close>, \<^verbatim>\<open>open_four\<close> and \<^verbatim>\<open>block_open_four\<close> assign to no
  attribute of the board object, which is why they are functions of the board here and
  return no board. \<^verbatim>\<open>order_the_point\<close> does write: each of its candidate tests goes
  through \<^verbatim>\<open>is_legal\<close>, which puts a stone on the candidate cell, may update the
  liberty cache, and sets the cell back to EMPTY. Whenever \<^verbatim>\<open>is_legal\<close> returns, and
  whenever \<^verbatim>\<open>order_the_point\<close> returns, every cell of the grid and \<^verbatim>\<open>current_player\<close>
  are as they were before the call.
\<close>

theorem scans_leave_grid:
  "(order_the_point sl b color = Inr (moves, b') \<longrightarrow>
      board b' = board b \<and> current_player b' = current_player b) \<and>
   (is_legal b p c = Inr (legal, b2) \<longrightarrow>
      board b2 = board b \<and> current_player b2 = current_player b)"
  using only_liberty_board [OF order_the_point_frame, of sl b color moves b']
    only_liberty_board [OF is_legal_frame, of b p c legal b2]
  by blast

theorem scans_leave_grid_witness:
  "\<exists>b' b2.
     order_the_point ascending suicide_four_board BLACK
       = Inr ([28, 26, 9, 15, 22, 23, 25, 29, 30, 31, 33, 34, 35, 36, 37, 38, 39,
               41, 42, 43, 44, 45, 46, 47, 49, 50, 51, 52, 53, 54, 55, 57, 58, 59,
               60, 61, 62, 63], b') \<and>
     board b' = board suicide_four_board \<and>
     current_player b' = current_player suicide_four_board \<and>
     is_legal suicide_four_board 9 BLACK = Inr (False, b2) \<and>
     board b2 = board suicide_four_board \<and>
     current_player b2 = current_player suicide_four_board"
proof -
  have "map_sum id fst (order_the_point ascending suicide_four_board BLACK)
          = Inr [28, 26, 9, 15, 22, 23, 25, 29, 30, 31, 33, 34, 35, 36, 37, 38, 39,
                 41, 42, 43, 44, 45, 46, 47, 49, 50, 51, 52, 53, 54, 55, 57, 58, 59,
                 60, 61, 62, 63]"
    by code_simp
  then obtain b' where o: "order_the_point ascending suicide_four_board BLACK
          = Inr ([28, 26, 9, 15, 22, 23, 25, 29, 30, 31, 33, 34, 35, 36, 37, 38, 39,
                  41, 42, 43, 44, 45, 46, 47, 49, 50, 51, 52, 53, 54, 55, 57, 58, 59,
                  60, 61, 62, 63], b')"
    by (cases "order_the_point ascending suicide_four_board BLACK") auto
  have "map_sum id fst (is_legal suicide_four_board 9 BLACK) = Inr False" by code_simp
  then obtain b2 where l: "is_legal suicide_four_board 9 BLACK = Inr (False, b2)"
    by (cases "is_legal suicide_four_board 9 BLACK") auto
  show ?thesis
    using scans_leave_grid [of ascending suicide_four_board BLACK _ b' 9 BLACK False b2] o l
    by blast
qed

section \<open>The legality test returns, and is decided by the cell, on good boards\<close>



























lemma only_liberty_sym: "only_liberty b b' \<Longrightarrow> only_liberty b' b"
proof -
  assume "only_liberty b b'"
  then obtain lo where "b' = b\<lparr>liberty_of := lo\<rparr>" using only_liberty_iff by blast
  then have "b = b'\<lparr>liberty_of := liberty_of b\<rparr>" by simp
  then show "only_liberty b' b" using only_liberty_iff by blast
qed











section \<open>The points found for a run of four complete a five\<close>













lemma bucket_mono:
  "bucket sl s mx points final = Inr (final', s') \<Longrightarrow> set final \<subseteq> set final'"
proof (induction points arbitrary: s final)
  case Nil
  then show ?case by simp
next
  case (Cons p ps)
  obtain r1 s1 where c1: "check_n sl s p mx = Inr (r1, s1)"
    using Cons.prems(1) by (auto split: sum.splits)
  show ?case
  proof (cases r1)
    case None
    then show ?thesis using Cons.prems c1 Cons.IH by simp
  next
    case (Some l1)
    obtain lt s2 where c2: "check_n sl s1 p mx = Inr (Some lt, s2)"
      using Cons.prems(1) c1 Some by (auto split: sum.splits option.splits)
    have rest: "bucket sl s2 mx ps (final @ filter (\<lambda>x. x \<notin> set final) lt) = Inr (final', s')"
      using Cons.prems(1) c1 Some c2 by simp
    show ?thesis using Cons.IH [OF rest] by auto
  qed
qed








section \<open>Timeouts of the minimax search\<close>

lemma timeout_iff_aux:
  "(\<forall>oc mv b' k'. minimax sl clk (Some l) depth b k color turn = Inr ((oc, mv), b', k') \<longrightarrow>
       k \<le> k' \<and> ((oc = OUnknown) = (\<exists>j. k \<le> j \<and> j < k' \<and> clk j > of_int l)))"
  "(\<forall>oc mv b' k'. mm_loop sl clk (Some l) depth b k color turn moves dl = Inr ((oc, mv), b', k') \<longrightarrow>
       k \<le> k' \<and> ((oc = OUnknown) = (\<exists>j. k \<le> j \<and> j < k' \<and> clk j > of_int l)))"
proof (induction sl clk "Some l :: int option" depth b k color turn and sl clk "Some l :: int option" depth b k color turn moves dl
    rule: minimax_mm_loop.induct)
  case (1 set_list clk b k color turn)
  then show ?case by simp
next
  case (2 set_list clk depth b k color turn)
  show ?case
    using 2 by (auto split: sum.splits bool.splits if_splits prod.splits)
next
  case (3 set_list clk depth b k color turn draw_list)
  then show ?case by auto
next
  case (4 set_list clk depth b k color turn move moves draw_list)
  show ?case
  proof (intro allI impI)
    fix oc mv b' k'
    assume eq: "mm_loop set_list clk (Some l) depth b k color turn (move # moves) draw_list
                  = Inr ((oc, mv), b', k')"
    obtain played b1 where pl: "play_move_gomoku b (Some move) color = Inr (played, b1)"
      using eq by (auto split: sum.splits)
    obtain fin winner where ce: "check_game_end_gomoku b1 = Inr (fin, winner)"
      using eq pl by (auto split: sum.splits)
    show "k \<le> k' \<and> ((oc = OUnknown) = (\<exists>j. k \<le> j \<and> j < k' \<and> clk j > of_int l))"
    proof (cases "(fin \<and> whosturn turn) \<or> (fin \<and> winner = Some color)
                   \<or> generate_legal_moves_gomoku b1 = []")
      case True
      then show ?thesis using eq pl ce by (auto split: sum.splits if_splits)
    next
      case False
      then have c1: "\<not> (fin \<and> whosturn turn)" and c2: "\<not> (fin \<and> winner = Some color)"
        and c3: "generate_legal_moves_gomoku b1 \<noteq> []" by auto
      obtain r b2 k2 where ch: "minimax set_list clk (Some l) depth b1 k
            (if color = BLACK then WHITE else BLACK) (if whosturn turn then And else Or)
              = Inr (r, b2, k2)"
        using eq pl ce c1 c2 c3 by (auto split: sum.splits)
      obtain b3 where un: "undo b2 move = Inr b3"
        using eq pl ce c1 c2 c3 ch by (auto split: sum.splits)
      obtain ro rm where r: "r = (ro, rm)" by (cases r)
      have ih1: "k \<le> k2 \<and> ((ro = OUnknown) = (\<exists>j. k \<le> j \<and> j < k2 \<and> clk j > of_int l))"
        using 4(1) [OF pl refl ce refl c1 c2 c3] ch r by blast
      show ?thesis
      proof (cases "clk k2 > of_int l \<or> (whosturn turn \<and> ro = OTrue)
                     \<or> (\<not> whosturn turn \<and> ro = OFalse) \<or> ro = OUnknown")
        case True
        have res: "(oc = OUnknown) = (clk k2 > of_int l \<or> ro = OUnknown) \<and> k' = Suc k2"
          using eq pl ce c1 c2 c3 ch un r True by (auto split: if_splits)
        have "(\<exists>j. k \<le> j \<and> j < Suc k2 \<and> clk j > of_int l)
                = (clk k2 > of_int l \<or> (\<exists>j. k \<le> j \<and> j < k2 \<and> clk j > of_int l))"
          using ih1 by (auto simp: less_Suc_eq)
        then show ?thesis using res ih1 by simp
      next
        case False
        then have n1: "\<not> rat_of_int l < clk k2" and n2: "\<not> (whosturn turn \<and> fst r = OTrue)"
          and n3: "\<not> (\<not> whosturn turn \<and> fst r = OFalse)" and n4: "fst r \<noteq> OUnknown"
          using r by auto
        have rest: "mm_loop set_list clk (Some l) depth b3 (Suc k2) color turn moves
                      (if fst r = ODraw then draw_list @ [move] else draw_list)
                      = Inr ((oc, mv), b', k')"
          using eq pl ce c1 c2 c3 ch un n1 n2 n3 n4 by (auto split: if_splits)
        have ih2: "Suc k2 \<le> k' \<and>
                   ((oc = OUnknown) = (\<exists>j. Suc k2 \<le> j \<and> j < k' \<and> clk j > of_int l))"
          using 4(2) [OF pl refl ce refl c1 c2 c3 ch refl refl un refl n1 n2 n3 n4] rest by blast
        have none: "\<not> (\<exists>j. k \<le> j \<and> j < Suc k2 \<and> clk j > of_int l)"
          using ih1 n1 n4 r by (auto simp: less_Suc_eq)
        have "(\<exists>j. k \<le> j \<and> j < k' \<and> clk j > of_int l)
                = (\<exists>j. Suc k2 \<le> j \<and> j < k' \<and> clk j > of_int l)"
        proof
          assume "\<exists>j. k \<le> j \<and> j < k' \<and> clk j > of_int l"
          then obtain j where j: "k \<le> j" "j < k'" "clk j > of_int l" by blast
          then have "Suc k2 \<le> j" using none by (meson not_less_eq_eq not_less)
          then show "\<exists>j. Suc k2 \<le> j \<and> j < k' \<and> clk j > of_int l" using j by blast
        next
          assume "\<exists>j. Suc k2 \<le> j \<and> j < k' \<and> clk j > of_int l"
          then obtain j where j: "Suc k2 \<le> j" "j < k'" "clk j > of_int l" by blast
          then have "k \<le> j" using ih1 by simp
          then show "\<exists>j. k \<le> j \<and> j < k' \<and> clk j > of_int l" using j by blast
        qed
        then show ?thesis using ih2 ih1 by simp
      qed
    qed
  qed
qed

lemma child_unknown_stops:
  assumes "play_move_gomoku b (Some m) color = Inr (played, b1)"
    and "check_game_end_gomoku b1 = Inr (fin, winner)"
    and "\<not> (fin \<and> whosturn turn)" and "\<not> (fin \<and> winner = Some color)"
    and "generate_legal_moves_gomoku b1 \<noteq> []"
    and "minimax sl clk (Some l) depth b1 k (if color = BLACK then WHITE else BLACK)
           (if whosturn turn then And else Or) = Inr ((OUnknown, cm), b2, k2)"
    and "undo b2 m = Inr b3"
  shows "mm_loop sl clk (Some l) depth b k color turn (m # ms) dl
           = Inr ((OUnknown, MFalse), b3, Suc k2)"
  using assms by (cases turn) auto

lemma put_length: "put xs p v = Some ys \<Longrightarrow> length ys = length xs"
  by (auto simp: put_def split: option.splits)

lemma play_length:
  "play_move_gomoku b p c = Inr (x, b1) \<Longrightarrow> length (board b1) = length (board b)"
  by (auto simp: play_move_gomoku_def split: if_splits option.splits dest: put_length)

lemma undo_length: "undo b p = Inr b1 \<Longrightarrow> length (board b1) = length (board b)"
  by (auto simp: undo_def split: option.splits dest: put_length)

lemma play_readable:
  "play_move_gomoku b (Some p) c = Inr (x, b1) \<Longrightarrow> norm_idx (length (board b)) p \<noteq> None"
  by (auto simp: play_move_gomoku_def get_def split: if_splits option.splits)

lemma undo_total:
  "norm_idx (length (board b)) p \<noteq> None \<Longrightarrow> \<exists>b1. undo b p = Inr b1"
  by (auto simp: undo_def put_def split: option.splits)

lemma order_the_point_length:
  "order_the_point sl b c = Inr (ms, b1) \<Longrightarrow> length (board b1) = length (board b)"
  using only_liberty_board [OF order_the_point_frame, of sl b c ms b1] by simp

lemma board_length_aux:
  "(\<forall>r b' k'. minimax sl clk (Some l) depth b k color turn = Inr (r, b', k') \<longrightarrow>
       length (board b') = length (board b))"
  "(\<forall>r b' k'. mm_loop sl clk (Some l) depth b k color turn moves dl = Inr (r, b', k') \<longrightarrow>
       length (board b') = length (board b))"
proof (induction sl clk "Some l :: int option" depth b k color turn and sl clk "Some l :: int option" depth b k color turn moves dl
    rule: minimax_mm_loop.induct)
  case (1 set_list clk b k color turn)
  then show ?case by simp
next
  case (2 set_list clk depth b k color turn)
  show ?case
  proof (intro allI impI)
    fix r b' k'
    assume eq: "minimax set_list clk (Some l) (Suc depth) b k color turn = Inr (r, b', k')"
    obtain fin winner where ce: "check_game_end_gomoku b = Inr (fin, winner)"
      using eq by (auto split: sum.splits)
    show "length (board b') = length (board b)"
    proof (cases fin)
      case True
      then show ?thesis using eq ce by (auto split: if_splits)
    next
      case False
      obtain ms b1 where otp: "order_the_point set_list b color = Inr (ms, b1)"
        using eq ce False by (auto split: sum.splits)
      have l1: "length (board b1) = length (board b)" using order_the_point_length [OF otp] .
      show ?thesis
      proof (cases "ms = []")
        case True
        then show ?thesis using eq ce False otp l1 by simp
      next
        case ne: False
        have "mm_loop set_list clk (Some l) depth b1 k color turn ms [] = Inr (r, b', k')"
          using eq ce False otp ne by simp
        then show ?thesis using 2 [OF ce refl _ otp refl ne] False l1 by simp
      qed
    qed
  qed
next
  case (3 set_list clk depth b k color turn draw_list)
  then show ?case by auto
next
  case (4 set_list clk depth b k color turn move moves draw_list)
  show ?case
  proof (intro allI impI)
    fix r' b' k'
    assume eq: "mm_loop set_list clk (Some l) depth b k color turn (move # moves) draw_list
                  = Inr (r', b', k')"
    obtain played b1 where pl: "play_move_gomoku b (Some move) color = Inr (played, b1)"
      using eq by (auto split: sum.splits)
    obtain fin winner where ce: "check_game_end_gomoku b1 = Inr (fin, winner)"
      using eq pl by (auto split: sum.splits)
    have l1: "length (board b1) = length (board b)" using play_length [OF pl] .
    show "length (board b') = length (board b)"
    proof (cases "(fin \<and> whosturn turn) \<or> (fin \<and> winner = Some color)
                   \<or> generate_legal_moves_gomoku b1 = []")
      case True
      then show ?thesis using eq pl ce l1 by (auto split: sum.splits if_splits dest: undo_length)
    next
      case False
      then have c1: "\<not> (fin \<and> whosturn turn)" and c2: "\<not> (fin \<and> winner = Some color)"
        and c3: "generate_legal_moves_gomoku b1 \<noteq> []" by auto
      obtain r b2 k2 where ch: "minimax set_list clk (Some l) depth b1 k
            (if color = BLACK then WHITE else BLACK) (if whosturn turn then And else Or)
              = Inr (r, b2, k2)"
        using eq pl ce c1 c2 c3 by (auto split: sum.splits)
      obtain b3 where un: "undo b2 move = Inr b3"
        using eq pl ce c1 c2 c3 ch by (auto split: sum.splits)
      have l2: "length (board b2) = length (board b1)"
        using 4(1) [OF pl refl ce refl c1 c2 c3] ch by blast
      have l3: "length (board b3) = length (board b)" using undo_length [OF un] l2 l1 by simp
      show ?thesis
      proof (cases "clk k2 > of_int l \<or> (whosturn turn \<and> fst r = OTrue)
                     \<or> (\<not> whosturn turn \<and> fst r = OFalse) \<or> fst r = OUnknown")
        case True
        have "b' = b3" using eq pl ce c1 c2 c3 ch un True by (auto split: if_splits)
        then show ?thesis using l3 by simp
      next
        case False
        then have n1: "\<not> rat_of_int l < clk k2" and n2: "\<not> (whosturn turn \<and> fst r = OTrue)"
          and n3: "\<not> (\<not> whosturn turn \<and> fst r = OFalse)" and n4: "fst r \<noteq> OUnknown"
          by auto
        have rest: "mm_loop set_list clk (Some l) depth b3 (Suc k2) color turn moves
                      (if fst r = ODraw then draw_list @ [move] else draw_list)
                      = Inr (r', b', k')"
          using eq pl ce c1 c2 c3 ch un n1 n2 n3 n4 by (auto split: if_splits)
        have "length (board b') = length (board b3)"
          using 4(2) [OF pl refl ce refl c1 c2 c3 ch refl refl un refl n1 n2 n3 n4] rest by blast
        then show ?thesis using l3 by simp
      qed
    qed
  qed
qed

lemma undo_after:
  assumes "play_move_gomoku b (Some p) c = Inr (x, b1)" and "length (board b2) = length (board b)"
  shows "\<exists>b3. undo b2 p = Inr b3"
  using undo_total [of b2 p] play_readable [OF assms(1)] assms(2) by simp

lemma mm_loop_step:
  assumes "play_move_gomoku b (Some m) color = Inr (played, b1)"
    and "check_game_end_gomoku b1 = Inr (fin, winner)"
    and "\<not> (fin \<and> whosturn turn)" and "\<not> (fin \<and> winner = Some color)"
    and "generate_legal_moves_gomoku b1 \<noteq> []"
    and "minimax sl clk (Some l) depth b1 k (if color = BLACK then WHITE else BLACK)
           (if whosturn turn then And else Or) = Inr (r, b2, k2)"
    and "undo b2 m = Inr b3"
  shows "mm_loop sl clk (Some l) depth b k color turn (m # ms) dl =
      (if clk k2 > of_int l then Inr ((OUnknown, MFalse), b3, Suc k2)
       else if whosturn turn \<and> fst r = OTrue then Inr ((OTrue, MInt m), b3, Suc k2)
       else if \<not> whosturn turn \<and> fst r = OFalse then Inr ((OFalse, MFalse), b3, Suc k2)
       else if fst r = OUnknown then Inr ((OUnknown, MFalse), b3, Suc k2)
       else mm_loop sl clk (Some l) depth b3 (Suc k2) color turn ms
              (if fst r = ODraw then dl @ [m] else dl))"
  using assms by (cases turn; cases fin) (simp_all del: mm_loop.simps add: mm_loop.simps(2))

lemma mm_loop_terminal:
  assumes "play_move_gomoku b (Some m) color = Inr (played, b1)"
    and "check_game_end_gomoku b1 = Inr (fin, winner)"
    and "(fin \<and> whosturn turn) \<or> (fin \<and> winner = Some color)
           \<or> generate_legal_moves_gomoku b1 = []"
  shows "mm_loop sl clk tlimit depth b k color turn (m # ms) dl =
      (case undo b1 m of Inl e \<Rightarrow> Inl e
       | Inr b2 \<Rightarrow> Inr ((if fin \<and> whosturn turn then (OTrue, MInt m)
                          else if fin \<and> winner = Some color then (OFalse, MFalse)
                          else (ODraw, MInt m)), b2, k))"
  using assms by (cases turn; cases fin) (auto simp del: mm_loop.simps simp add: mm_loop.simps(2) split: sum.splits)

lemma timed_aux:
  "(\<forall>j. \<not> clk0 j > of_int l) \<longrightarrow>
   (\<forall>r b' k'. minimax sl clk0 (Some l) depth b k color turn = Inr (r, b', k') \<longrightarrow>
      (if \<exists>j. k \<le> j \<and> j < k' \<and> clk j > of_int l
       then \<exists>b'' k''. minimax sl clk (Some l) depth b k color turn = Inr ((OUnknown, MFalse), b'', k'')
       else minimax sl clk (Some l) depth b k color turn = Inr (r, b', k')))"
  "(\<forall>j. \<not> clk0 j > of_int l) \<longrightarrow>
   (\<forall>r b' k'. mm_loop sl clk0 (Some l) depth b k color turn moves dl = Inr (r, b', k') \<longrightarrow>
      (if \<exists>j. k \<le> j \<and> j < k' \<and> clk j > of_int l
       then \<exists>b'' k''. mm_loop sl clk (Some l) depth b k color turn moves dl = Inr ((OUnknown, MFalse), b'', k'')
       else mm_loop sl clk (Some l) depth b k color turn moves dl = Inr (r, b', k')))"
proof (induction sl clk0 "Some l :: int option" depth b k color turn and sl clk0 "Some l :: int option" depth b k color turn moves dl
    rule: minimax_mm_loop.induct)
  case (1 set_list clk0 b k color turn)
  then show ?case by simp
next
  case (2 set_list clk0 depth b k color turn)
  show ?case
  proof (intro allI impI)
    fix r b' k'
    assume quiet: "\<forall>j. \<not> clk0 j > of_int l"
    assume eq: "minimax set_list clk0 (Some l) (Suc depth) b k color turn = Inr (r, b', k')"
    obtain fin winner where ce: "check_game_end_gomoku b = Inr (fin, winner)"
      using eq by (auto split: sum.splits)
    show "if \<exists>j. k \<le> j \<and> j < k' \<and> clk j > of_int l
       then \<exists>b'' k''. minimax set_list clk (Some l) (Suc depth) b k color turn = Inr ((OUnknown, MFalse), b'', k'')
       else minimax set_list clk (Some l) (Suc depth) b k color turn = Inr (r, b', k')"
    proof (cases fin)
      case True
      then have "k' = k \<and> minimax set_list clk (Some l) (Suc depth) b k color turn = Inr (r, b', k')"
        using eq ce by (auto split: if_splits)
      then show ?thesis by auto
    next
      case False
      obtain ms b1 where otp: "order_the_point set_list b color = Inr (ms, b1)"
        using eq ce False by (auto split: sum.splits)
      show ?thesis
      proof (cases "ms = []")
        case True
        then have "k' = k \<and> minimax set_list clk (Some l) (Suc depth) b k color turn = Inr (r, b', k')"
          using eq ce False otp by auto
        then show ?thesis by auto
      next
        case ne: False
        have m0: "mm_loop set_list clk0 (Some l) depth b1 k color turn ms [] = Inr (r, b', k')"
          using eq ce False otp ne by simp
        have m1: "minimax set_list clk (Some l) (Suc depth) b k color turn
                    = mm_loop set_list clk (Some l) depth b1 k color turn ms []"
          using ce False otp ne by simp
        have "if \<exists>j. k \<le> j \<and> j < k' \<and> clk j > of_int l
              then \<exists>b'' k''. mm_loop set_list clk (Some l) depth b1 k color turn ms []
                      = Inr ((OUnknown, MFalse), b'', k'')
              else mm_loop set_list clk (Some l) depth b1 k color turn ms [] = Inr (r, b', k')"
          using 2 [OF ce refl _ otp refl ne, THEN mp, OF _ quiet, rule_format, OF _ m0] False
          by simp
        then show ?thesis unfolding m1 .
      qed
    qed
  qed
next
  case (3 set_list clk0 depth b k color turn draw_list)
  then show ?case by auto
next
  case (4 set_list clk0 depth b k color turn move moves draw_list)
  show ?case
  proof (intro allI impI)
    fix r' b' k'
    assume quiet: "\<forall>j. \<not> clk0 j > of_int l"
    assume eq: "mm_loop set_list clk0 (Some l) depth b k color turn (move # moves) draw_list
                  = Inr (r', b', k')"
    let ?T = "\<exists>j. k \<le> j \<and> j < k' \<and> clk j > of_int l"
    let ?timed = "mm_loop set_list clk (Some l) depth b k color turn (move # moves) draw_list"
    obtain played b1 where pl: "play_move_gomoku b (Some move) color = Inr (played, b1)"
      using eq by (auto split: sum.splits)
    obtain fin winner where ce: "check_game_end_gomoku b1 = Inr (fin, winner)"
      using eq pl by (auto split: sum.splits)
    have l1: "length (board b1) = length (board b)" using play_length [OF pl] .
    show "if ?T then \<exists>b'' k''. ?timed = Inr ((OUnknown, MFalse), b'', k'')
          else ?timed = Inr (r', b', k')"
    proof (cases "(fin \<and> whosturn turn) \<or> (fin \<and> winner = Some color)
                   \<or> generate_legal_moves_gomoku b1 = []")
      case True
      have t0: "?timed = mm_loop set_list clk0 (Some l) depth b k color turn (move # moves) draw_list"
        unfolding mm_loop_terminal [OF pl ce True] ..
      have "k' = k"
        using eq unfolding mm_loop_terminal [OF pl ce True] by (auto split: sum.splits)
      then have "\<not> ?T" by auto
      then show ?thesis using t0 eq by (simp only: if_False)
    next
      case False
      then have c1: "\<not> (fin \<and> whosturn turn)" and c2: "\<not> (fin \<and> winner = Some color)"
        and c3: "generate_legal_moves_gomoku b1 \<noteq> []" by auto
      let ?child = "\<lambda>c. minimax set_list c (Some l) depth b1 k
            (if color = BLACK then WHITE else BLACK) (if whosturn turn then And else Or)"
      obtain r b2 k2 where ch: "?child clk0 = Inr (r, b2, k2)"
        using eq pl ce c1 c2 c3 by (auto split: sum.splits)
      obtain b3 where un: "undo b2 move = Inr b3"
        using eq pl ce c1 c2 c3 ch by (auto split: sum.splits)
      note step0 = mm_loop_step [OF pl ce c1 c2 c3 ch un, of moves draw_list]
      have kk2: "k \<le> k2"
        using timeout_iff_aux(1) [of set_list clk0 l depth b1 k] ch by (cases r) blast
      have n1: "\<not> rat_of_int l < clk0 k2" using quiet by simp
      have ih1: "if \<exists>j. k \<le> j \<and> j < k2 \<and> clk j > of_int l
                 then \<exists>b'' k''. ?child clk = Inr ((OUnknown, MFalse), b'', k'')
                 else ?child clk = Inr (r, b2, k2)"
        using 4(1) [OF pl refl ce refl c1 c2 c3, THEN mp, OF quiet, rule_format, OF ch] .
      let ?stop = "(whosturn turn \<and> fst r = OTrue)
                     \<or> (\<not> whosturn turn \<and> fst r = OFalse) \<or> fst r = OUnknown"
      let ?rest = "\<lambda>c. mm_loop set_list c (Some l) depth b3 (Suc k2) color turn moves
                      (if fst r = ODraw then draw_list @ [move] else draw_list)"
      have k2k': "Suc k2 \<le> k'"
      proof (cases ?stop)
        case True
        then show ?thesis using eq n1 unfolding step0 by (auto split: if_splits)
      next
        case False
        then have "?rest clk0 = Inr (r', b', k')"
          using eq n1 unfolding step0 by (auto split: if_splits)
        then show ?thesis
          using timeout_iff_aux(2) [of set_list clk0 l depth b3 "Suc k2"] by (cases r') blast
      qed
      show ?thesis
      proof (cases "\<exists>j. k \<le> j \<and> j < k2 \<and> clk j > of_int l")
        case early: True
        then obtain b2' k2' where cht: "?child clk = Inr ((OUnknown, MFalse), b2', k2')"
          using ih1 by auto
        have "length (board b2') = length (board b1)"
          using board_length_aux(1) [of set_list clk l depth b1 k] cht by blast
        then obtain b3' where un': "undo b2' move = Inr b3'"
          using undo_after [OF pl, of b2'] l1 by auto
        have "?timed = Inr ((OUnknown, MFalse), b3', Suc k2')"
          unfolding mm_loop_step [OF pl ce c1 c2 c3 cht un'] by simp
        moreover have ?T using early k2k' by (meson Suc_le_lessD less_trans)
        ultimately show ?thesis by (simp only: if_True) blast
      next
        case noearly: False
        then have cht: "?child clk = Inr (r, b2, k2)" using ih1 by (simp only: if_False)
        note step = mm_loop_step [OF pl ce c1 c2 c3 cht un, of moves draw_list]
        show ?thesis
        proof (cases "clk k2 > of_int l")
          case True
          have "?timed = Inr ((OUnknown, MFalse), b3, Suc k2)"
            unfolding step using True by simp
          moreover have ?T using True kk2 k2k' by auto
          ultimately show ?thesis by (simp only: if_True) blast
        next
          case m1: False
          show ?thesis
          proof (cases ?stop)
            case True
            have a0: "k' = Suc k2" using eq n1 True unfolding step0 by (auto split: if_splits)
            have "?timed = mm_loop set_list clk0 (Some l) depth b k color turn (move # moves) draw_list"
              unfolding step step0 using m1 n1 True by auto
            then have a1: "?timed = Inr (r', b', k')" using eq by simp
            have "\<not> ?T"
            proof
              assume ?T
              then obtain j where j: "k \<le> j" "j < k'" "clk j > of_int l" by blast
              then have "j < k2 \<or> j = k2" using a0 by auto
              then show False using j noearly m1 by auto
            qed
            then show ?thesis using a1 by (simp only: if_False)
          next
            case False
            then have n2: "\<not> (whosturn turn \<and> fst r = OTrue)"
              and n3: "\<not> (\<not> whosturn turn \<and> fst r = OFalse)" and n4: "fst r \<noteq> OUnknown"
              by auto
            have rest0: "?rest clk0 = Inr (r', b', k')"
              using eq n1 n2 n3 n4 unfolding step0 by (simp only: if_False)
            have tm: "?timed = ?rest clk"
              unfolding step using m1 n2 n3 n4 by (simp only: if_False)
            have ih2: "if \<exists>j. Suc k2 \<le> j \<and> j < k' \<and> clk j > of_int l
                       then \<exists>b'' k''. ?rest clk = Inr ((OUnknown, MFalse), b'', k'')
                       else ?rest clk = Inr (r', b', k')"
              using 4(2) [OF pl refl ce refl c1 c2 c3 ch refl refl un refl n1 n2 n3 n4,
                  THEN mp, OF quiet, rule_format, OF rest0] .
            have "?T = (\<exists>j. Suc k2 \<le> j \<and> j < k' \<and> clk j > of_int l)"
            proof
              assume ?T
              then obtain j where j: "k \<le> j" "j < k'" "clk j > of_int l" by blast
              then have "\<not> j < k2 \<and> j \<noteq> k2" using noearly m1 by auto
              then have "Suc k2 \<le> j" by simp
              then show "\<exists>j. Suc k2 \<le> j \<and> j < k' \<and> clk j > of_int l" using j by blast
            next
              assume "\<exists>j. Suc k2 \<le> j \<and> j < k' \<and> clk j > of_int l"
              then obtain j where j: "Suc k2 \<le> j" "j < k'" "clk j > of_int l" by blast
              then have "k \<le> j" using kk2 by simp
              then show ?T using j by blast
            qed
            then show ?thesis using ih2 unfolding tm by (simp only:)
          qed
        qed
      qed
    qed
  qed
qed

text \<open>
  C6, as stated, fails in its second part: the clock is read only after a child call
  has returned. On a board where BLACK completes five with the first move tried, the
  search returns the win although every reading of the clock would be far beyond the
  limit.
\<close>

theorem late_win_counterexample:
  "map_sum id fst (solve ascending late_clock (Some 1) 1000 two_fours_board BLACK)
     = Inr (OTrue, MInt 13)"
  by code_simp

text \<open>
  C6, amended. With a time limit configured, a search that returns (at any node, so
  also at the top) returns \<^verbatim>\<open>"unknown"\<close> exactly when one of the clock readings taken
  during it, one after each child call that returned, was beyond the limit. Compared
  with a run of the same search on a clock \<open>clk0\<close> that never passes the limit and that
  returns \<open>r0\<close> after the readings \<open>k\<close> to \<open>k0 - 1\<close>: on any clock \<open>clk\<close> the search returns
  too, \<^verbatim>\<open>"unknown"\<close> when one of these readings is beyond the limit on \<open>clk\<close> and \<open>r0\<close>
  otherwise, so a timeout raises nothing and is never turned into a win, a loss or a
  draw. And a node whose child call returns \<^verbatim>\<open>"unknown"\<close>, or returns anything and is
  followed by a reading beyond the limit, undoes its move and returns \<^verbatim>\<open>"unknown"\<close>
  itself, whatever moves \<open>ms\<close> are left to try.
\<close>

theorem timeout_propagation:
  "(minimax sl clk (Some l) depth b k color turn = Inr ((oc, mv), b', k') \<longrightarrow>
      k \<le> k' \<and> ((oc = OUnknown) = (\<exists>j. k \<le> j \<and> j < k' \<and> clk j > of_int l))) \<and>
   ((\<forall>j. \<not> clk0 j > of_int l) \<and>
    minimax sl clk0 (Some l) depth b k color turn = Inr (r0, b0, k0) \<longrightarrow>
      (if \<exists>j. k \<le> j \<and> j < k0 \<and> clk j > of_int l
       then \<exists>b'' k''. minimax sl clk (Some l) depth b k color turn
                        = Inr ((OUnknown, MFalse), b'', k'')
       else minimax sl clk (Some l) depth b k color turn = Inr (r0, b0, k0))) \<and>
   (play_move_gomoku b (Some m) color = Inr (played, b1) \<and>
    check_game_end_gomoku b1 = Inr (fin, winner) \<and>
    \<not> (fin \<and> whosturn turn) \<and> \<not> (fin \<and> winner = Some color) \<and>
    generate_legal_moves_gomoku b1 \<noteq> [] \<and>
    minimax sl clk (Some l) depth b1 k (if color = BLACK then WHITE else BLACK)
      (if whosturn turn then And else Or) = Inr ((co, cm), b2, k2) \<and>
    (co = OUnknown \<or> clk k2 > of_int l) \<longrightarrow>
      (\<exists>b3. undo b2 m = Inr b3 \<and>
            mm_loop sl clk (Some l) depth b k color turn (m # ms) dl
              = Inr ((OUnknown, MFalse), b3, Suc k2)))"
proof (intro conjI impI)
  assume "minimax sl clk (Some l) depth b k color turn = Inr ((oc, mv), b', k')"
  then show "k \<le> k'" "(oc = OUnknown) = (\<exists>j. k \<le> j \<and> j < k' \<and> clk j > of_int l)"
    using timeout_iff_aux(1) [of sl clk l depth b k color turn] by blast+
next
  assume a: "(\<forall>j. \<not> clk0 j > of_int l) \<and>
    minimax sl clk0 (Some l) depth b k color turn = Inr (r0, b0, k0)"
  show "if \<exists>j. k \<le> j \<and> j < k0 \<and> clk j > of_int l
       then \<exists>b'' k''. minimax sl clk (Some l) depth b k color turn
                        = Inr ((OUnknown, MFalse), b'', k'')
       else minimax sl clk (Some l) depth b k color turn = Inr (r0, b0, k0)"
    using timed_aux(1) [where ?clk0.0 = clk0 and l = l and sl = sl and depth = depth and b = b
        and k = k and color = color and turn = turn and clk = clk, THEN mp, OF conjunct1 [OF a],
        rule_format, OF conjunct2 [OF a]] .
next
  assume a: "play_move_gomoku b (Some m) color = Inr (played, b1) \<and>
    check_game_end_gomoku b1 = Inr (fin, winner) \<and>
    \<not> (fin \<and> whosturn turn) \<and> \<not> (fin \<and> winner = Some color) \<and>
    generate_legal_moves_gomoku b1 \<noteq> [] \<and>
    minimax sl clk (Some l) depth b1 k (if color = BLACK then WHITE else BLACK)
      (if whosturn turn then And else Or) = Inr ((co, cm), b2, k2) \<and>
    (co = OUnknown \<or> clk k2 > of_int l)"
  then have pl: "play_move_gomoku b (Some m) color = Inr (played, b1)"
    and ce: "check_game_end_gomoku b1 = Inr (fin, winner)"
    and c1: "\<not> (fin \<and> whosturn turn)" and c2: "\<not> (fin \<and> winner = Some color)"
    and c3: "generate_legal_moves_gomoku b1 \<noteq> []"
    and ch: "minimax sl clk (Some l) depth b1 k (if color = BLACK then WHITE else BLACK)
      (if whosturn turn then And else Or) = Inr ((co, cm), b2, k2)"
    and late: "co = OUnknown \<or> clk k2 > of_int l"
    by blast+
  have "length (board b2) = length (board b1)"
    using board_length_aux(1) [of sl clk l depth b1 k] ch by blast
  then obtain b3 where un: "undo b2 m = Inr b3"
    using undo_after [OF pl, of b2] play_length [OF pl] by auto
  have "mm_loop sl clk (Some l) depth b k color turn (m # ms) dl
          = Inr ((OUnknown, MFalse), b3, Suc k2)"
    unfolding mm_loop_step [OF pl ce c1 c2 c3 ch un] using late by auto
  then show "\<exists>b3. undo b2 m = Inr b3 \<and>
            mm_loop sl clk (Some l) depth b k color turn (m # ms) dl
              = Inr ((OUnknown, MFalse), b3, Suc k2)"
    using un by blast
qed

theorem timeout_propagation_witness:
  "minimax ascending late_clock (Some 1) 10 (reset 2) 0 BLACK Or
     = Inr ((OUnknown, MFalse), reset 2, 3) \<and>
   (\<exists>j. 0 \<le> j \<and> j < (3::nat) \<and> late_clock j > of_int 1) \<and>
   (\<forall>j. \<not> early_clock j > of_int 1) \<and>
   minimax ascending early_clock (Some 1) 10 (reset 2) 0 BLACK Or
     = Inr ((ODraw, MInt 4), reset 2, 40) \<and>
   (\<exists>j. 0 \<le> j \<and> j < (40::nat) \<and> late_clock j > of_int 1) \<and>
   (\<exists>b'' k''. minimax ascending late_clock (Some 1) 10 (reset 2) 0 BLACK Or
                 = Inr ((OUnknown, MFalse), b'', k'')) \<and>
   play_move_gomoku (reset 2) (Some 4) BLACK = Inr (True, opened_board) \<and>
   check_game_end_gomoku opened_board = Inr (False, None) \<and>
   generate_legal_moves_gomoku opened_board \<noteq> [] \<and>
   minimax ascending late_clock (Some 1) 9 opened_board 0 WHITE And
     = Inr ((OUnknown, MFalse), opened_board\<lparr>current_player := BLACK\<rparr>, 2) \<and>
   (\<exists>b3. undo (opened_board\<lparr>current_player := BLACK\<rparr>) 4 = Inr b3 \<and>
         mm_loop ascending late_clock (Some 1) 9 (reset 2) 0 BLACK Or [4, 5, 7, 8] []
           = Inr ((OUnknown, MFalse), b3, 3))"
proof -
  have top: "minimax ascending late_clock (Some 1) 10 (reset 2) 0 BLACK Or
               = Inr ((OUnknown, MFalse), reset 2, 3)" by code_simp
  have ref: "minimax ascending early_clock (Some 1) 10 (reset 2) 0 BLACK Or
               = Inr ((ODraw, MInt 4), reset 2, 40)" by code_simp
  have quiet: "\<forall>j. \<not> early_clock j > of_int 1" by (simp add: early_clock_def)
  have lt: "\<exists>j. 0 \<le> j \<and> j < (40::nat) \<and> late_clock j > of_int 1"
    by (rule exI [of _ 0]) (simp add: late_clock_def)
  have pl: "play_move_gomoku (reset 2) (Some 4) BLACK = Inr (True, opened_board)" by code_simp
  have ce: "check_game_end_gomoku opened_board = Inr (False, None)" by code_simp
  have lm: "generate_legal_moves_gomoku opened_board \<noteq> []" by code_simp
  have ch: "minimax ascending late_clock (Some 1) 9 opened_board 0
              (if BLACK = BLACK then WHITE else BLACK) (if whosturn Or then And else Or)
              = Inr ((OUnknown, MFalse), opened_board\<lparr>current_player := BLACK\<rparr>, 2)"
    by code_simp
  note inst1 = timeout_propagation [where sl = ascending and clk = late_clock and l = 1
        and depth = 10 and b = "reset 2" and k = 0 and color = BLACK and turn = Or
        and oc = OUnknown and mv = MFalse and b' = "reset 2" and k' = 3
        and ?clk0.0 = early_clock and ?r0.0 = "(ODraw, MInt 4)" and ?b0.0 = "reset 2"
        and ?k0.0 = 40]
  have i1: "\<exists>j. 0 \<le> j \<and> j < (3::nat) \<and> late_clock j > of_int 1"
    using inst1 [THEN conjunct1] top by simp
  have i2: "\<exists>b'' k''. minimax ascending late_clock (Some 1) 10 (reset 2) 0 BLACK Or
                 = Inr ((OUnknown, MFalse), b'', k'')"
    using inst1 [THEN conjunct2, THEN conjunct1] quiet ref lt by (simp only: if_True simp_thms)
  have i3: "\<exists>b3. undo (opened_board\<lparr>current_player := BLACK\<rparr>) 4 = Inr b3 \<and>
         mm_loop ascending late_clock (Some 1) 9 (reset 2) 0 BLACK Or (4 # [5, 7, 8]) []
           = Inr ((OUnknown, MFalse), b3, Suc 2)"
    using timeout_propagation [where sl = ascending and clk = late_clock and l = 1 and depth = 9
        and b = "reset 2" and k = 0 and color = BLACK and turn = Or and m = 4 and played = True
        and ?b1.0 = opened_board and fin = False and winner = None and co = OUnknown
        and cm = MFalse and ?b2.0 = "opened_board\<lparr>current_player := BLACK\<rparr>" and ?k2.0 = 2
        and ms = "[5, 7, 8]" and dl = "[]", THEN conjunct2, THEN conjunct2]
      pl ce lm ch
    by simp
  have ch': "minimax ascending late_clock (Some 1) 9 opened_board 0 WHITE And
              = Inr ((OUnknown, MFalse), opened_board\<lparr>current_player := BLACK\<rparr>, 2)"
    using ch by simp
  have i3': "\<exists>b3. undo (opened_board\<lparr>current_player := BLACK\<rparr>) 4 = Inr b3 \<and>
         mm_loop ascending late_clock (Some 1) 9 (reset 2) 0 BLACK Or [4, 5, 7, 8] []
           = Inr ((OUnknown, MFalse), b3, 3)"
    using i3 by (simp add: numeral_3_eq_3 del: mm_loop.simps)
  show ?thesis using top i1 quiet ref lt i2 pl ce lm ch' i3' by (intro conjI)
qed

section \<open>The solver on a position with a four\<close>






section \<open>Backpropagation\<close>

lemma BackProp_no_update:
  "BackProp tree k stop w = Inr tree' \<Longrightarrow> k = stop \<and> tree' = tree"
  by (auto simp: BackProp_def split: if_splits option.splits)

text \<open>
  C8. Backpropagation from a node below the root does not increment the node's
  simulation counter: the call raises AttributeError. With the two equal keys that
  \<^verbatim>\<open>Monte_Carlo_Tree\<close> passes, the call returns the tree as it was.
\<close>

theorem BackProp_raises:
  "BackProp one_node_tree ''k'' ''r'' False = Inl AttributeError \<and>
   BackProp one_node_tree ''k'' ''r'' True = Inl AttributeError \<and>
   BackProp one_node_tree ''r'' ''r'' True = Inr one_node_tree"
  by (simp add: BackProp_def one_node_tree_def)

end
